theory Spec2Isabelle
  imports Main "HOL-Library.Char_ord" "HOL-Library.List_Lexorder" "HOL-Library.Sublist"
begin

section \<open>Python values used by the cleaner\<close>

text \<open>
  Exceptions are values. The constructors are the exception classes that the two
  source files raise, catch or can receive from the library calls they make.
  \<open>ModuleNotFoundError\<close> is a subclass of \<open>ImportError\<close>; an \<open>except\<close> clause
  catches subclasses as well.
\<close>

datatype pyexc =
    EOFError | BufferError | UnpicklingError | ImportError | ModuleNotFoundError
  | IndexError | AttributeError | KeyError | TypeError | ValueError
  | ZeroDivisionError | YAMLError | OSError | AssertionError

fun subclass_of :: "pyexc \<Rightarrow> pyexc \<Rightarrow> bool" where
  "subclass_of ModuleNotFoundError ImportError = True"
| "subclass_of e c = (e = c)"

definition NORMAL_EXCEPTIONS :: "pyexc list" where
  "NORMAL_EXCEPTIONS =
     [EOFError, BufferError, UnpicklingError, ImportError, IndexError, AttributeError]"

definition caught_by :: "pyexc list \<Rightarrow> pyexc \<Rightarrow> bool" where
  "caught_by classes e = list_ex (subclass_of e) classes"

text \<open>
  File names are strings whose characters stand for the code points U+0000 to U+00FF.
  On this alphabet \<open>str.isnumeric\<close> accepts the ten decimal digits and the six code
  points superscript two, three, one and the fractions one quarter, one half, three
  quarters, while \<open>int\<close> accepts the decimal digits only.
\<close>

definition decimal_char :: "char \<Rightarrow> bool" where
  "decimal_char c = (c \<in> set ''0123456789'')"

definition numeric_char :: "char \<Rightarrow> bool" where
  "numeric_char c =
     (decimal_char c \<or> c \<in> set [CHR 0xB2, CHR 0xB3, CHR 0xB9, CHR 0xBC, CHR 0xBD, CHR 0xBE])"

definition isnumeric :: "string \<Rightarrow> bool" where
  "isnumeric s = (s \<noteq> [] \<and> list_all numeric_char s)"

definition digit_value :: "char \<Rightarrow> nat" where
  "digit_value c = of_char c - 48"

text \<open>
  \<open>int(s)\<close> on the strings the source passes to it, which have all passed
  \<open>isnumeric\<close>: no sign, blank or underscore occurs in them.
\<close>

definition py_int :: "string \<Rightarrow> pyexc + int" where
  "py_int s =
     (if s \<noteq> [] \<and> list_all decimal_char s
      then Inr (int (foldl (\<lambda>a c. 10 * a + digit_value c) 0 s))
      else Inl ValueError)"

text \<open>\<open>s.split(".")\<close> and the subscript \<open>[1]\<close>, which raises on a list of one piece.\<close>

fun split_dot :: "string \<Rightarrow> string list" where
  "split_dot [] = [[]]"
| "split_dot (c # cs) =
     (if c = CHR ''.'' then [] # split_dot cs
      else (case split_dot cs of [] \<Rightarrow> [[c]] | t # ts \<Rightarrow> (c # t) # ts))"

definition item1 :: "'a list \<Rightarrow> pyexc + 'a" where
  "item1 xs = (case xs of _ # x # _ \<Rightarrow> Inr x | _ \<Rightarrow> Inl IndexError)"

section \<open>Directories\<close>

text \<open>
  A directory is the list of its entries in the order \<open>iterdir\<close> and \<open>glob\<close> enumerate
  them, each with what \<open>is_file\<close> and \<open>is_dir\<close> say about it. \<open>os.remove\<close> takes the
  entry of that name out. Failures of the operating system (a file that cannot be
  removed, a directory that cannot be read) are not part of the model.
\<close>

datatype kind = File | Dir | Other

type_synonym listing = "(string \<times> kind) list"

definition is_file :: "listing \<Rightarrow> string \<Rightarrow> bool" where
  "is_file d nm = (map_of d nm = Some File)"

definition os_remove :: "string \<Rightarrow> listing \<Rightarrow> listing" where
  "os_remove nm d = filter (\<lambda>e. fst e \<noteq> nm) d"

text \<open>\<open>d.glob(f"{out_lbl}.*")\<close>: the names that start with the label and a dot.\<close>

definition glob_label :: "listing \<Rightarrow> string \<Rightarrow> string list" where
  "glob_label d lbl = filter (prefix (lbl @ ''.'')) (map fst d)"

section \<open>Command line arguments\<close>

record args =
  outglobs :: "string list"
  every_n_epochs :: int
  force :: bool
  verbose :: nat
  dry_run :: bool

text \<open>
  \<open>clean_dir\<close> reads attributes of its second argument. \<open>main\<close> passes the namespace
  on one path and the integer \<open>args.every_n_epochs\<close> on the other; an integer has
  neither attribute.
\<close>

datatype pyargs = Namespace args | PyInt int

fun get_every_n_epochs :: "pyargs \<Rightarrow> pyexc + int" where
  "get_every_n_epochs (Namespace a) = Inr (every_n_epochs a)"
| "get_every_n_epochs (PyInt _) = Inl AttributeError"

fun get_dry_run :: "pyargs \<Rightarrow> pyexc + bool" where
  "get_dry_run (Namespace a) = Inr (dry_run a)"
| "get_dry_run (PyInt _) = Inl AttributeError"

section \<open>clean\_dir\<close>

text \<open>
  The set comprehension over \<open>d.iterdir()\<close>. \<open>int\<close> is applied to each entry that
  passes the three tests, and its exception ends the comprehension.
\<close>

fun analysis_epochs :: "listing \<Rightarrow> pyexc + int list" where
  "analysis_epochs [] = Inr []"
| "analysis_epochs ((nm, k) # es) =
     (if k = Dir \<and> take 8 nm = ''analyze.'' then
        (case item1 (split_dot nm) of
           Inl e \<Rightarrow> Inl e
         | Inr tok \<Rightarrow>
             if isnumeric tok then
               (case py_int tok of
                  Inl e \<Rightarrow> Inl e
                | Inr n \<Rightarrow>
                    (case analysis_epochs es of Inl e \<Rightarrow> Inl e | Inr ns \<Rightarrow> Inr (n # ns)))
             else analysis_epochs es)
      else analysis_epochs es)"

text \<open>
  The condition of the \<open>if\<close> in the inner loop, in the order Python evaluates it:
  the epoch token, \<open>is_file\<close>, \<open>isnumeric\<close>, \<open>int(epoch)\<close>, the attribute
  \<open>every_n_epochs\<close>, the remainder (which raises on a zero modulus), the membership
  test. Python's \<open>%\<close> on integers is the floored remainder, as \<open>mod\<close> on \<open>int\<close> is.
\<close>

definition should_remove :: "pyargs \<Rightarrow> int list \<Rightarrow> listing \<Rightarrow> string \<Rightarrow> pyexc + bool" where
  "should_remove a an d nm =
     (case item1 (split_dot nm) of
        Inl e \<Rightarrow> Inl e
      | Inr epoch \<Rightarrow>
          if \<not> is_file d nm then Inr False
          else if \<not> isnumeric epoch then Inr False
          else
            (case py_int epoch of
               Inl e \<Rightarrow> Inl e
             | Inr i \<Rightarrow>
                 (case get_every_n_epochs a of
                    Inl e \<Rightarrow> Inl e
                  | Inr n \<Rightarrow>
                      if n = 0 then Inl ZeroDivisionError
                      else if i mod n = 0 then Inr False
                      else Inr (i \<notin> set an))))"

text \<open>
  The body of the inner loop for one path: the new directory and \<open>rmv_count\<close>, or
  the exception. \<open>rmv_count\<close> is incremented before \<open>args.dry_run\<close> is read.
\<close>

definition visit :: "pyargs \<Rightarrow> int list \<Rightarrow> string \<Rightarrow> listing \<times> nat \<Rightarrow> pyexc + listing \<times> nat" where
  "visit a an nm st =
     (case should_remove a an (fst st) nm of
        Inl e \<Rightarrow> Inl e
      | Inr b \<Rightarrow>
          if b then
            (case get_dry_run a of
               Inl e \<Rightarrow> Inl e
             | Inr dry \<Rightarrow> Inr (if dry then fst st else os_remove nm (fst st), snd st + 1))
          else Inr st)"

text \<open>
  The inner loop over the paths one \<open>glob\<close> call returned. An exception leaves the
  directory as it is at that moment.
\<close>

fun clean_files ::
  "pyargs \<Rightarrow> int list \<Rightarrow> string list \<Rightarrow> listing \<times> nat \<Rightarrow> listing \<times> (pyexc + nat)" where
  "clean_files a an [] st = (fst st, Inr (snd st))"
| "clean_files a an (nm # nms) st =
     (case visit a an nm st of
        Inl e \<Rightarrow> (fst st, Inl e)
      | Inr st' \<Rightarrow> clean_files a an nms st')"

text \<open>The outer loop over the four labels; each label globs the directory afresh.\<close>

definition out_lbls :: "string list" where
  "out_lbls = [''weights'', ''z'', ''pose'', ''reconstruct'']"

fun clean_labels ::
  "pyargs \<Rightarrow> int list \<Rightarrow> string list \<Rightarrow> listing \<times> nat \<Rightarrow> listing \<times> (pyexc + nat)" where
  "clean_labels a an [] st = (fst st, Inr (snd st))"
| "clean_labels a an (lbl # lbls) st =
     (case clean_files a an (glob_label (fst st) lbl) st of
        (d', Inl e) \<Rightarrow> (d', Inl e)
      | (d', Inr c') \<Rightarrow> clean_labels a an lbls (d', c'))"

text \<open>
  \<open>clean_dir\<close> returns the directory it leaves behind and either the exception that
  ended it or the count it prints.
\<close>

definition clean_dir :: "pyargs \<Rightarrow> listing \<Rightarrow> listing \<times> (pyexc + nat)" where
  "clean_dir a d =
     (case analysis_epochs d of
        Inl e \<Rightarrow> (d, Inl e)
      | Inr an \<Rightarrow>
          (case clean_labels a an out_lbls (d, 0) of
             (d', Inl e) \<Rightarrow> (d', Inl e)
           | (d', Inr c) \<Rightarrow>
               (case get_dry_run a of Inl e \<Rightarrow> (d', Inl e) | Inr _ \<Rightarrow> (d', Inr c))))"

text \<open>
  Two abbreviations for the proofs: a name that one of the four glob patterns matches,
  and the paths the four \<open>glob\<close> calls return on one directory, in the order of the
  loops.
\<close>

definition lbl_name :: "string \<Rightarrow> bool" where
  "lbl_name x = list_ex (\<lambda>l. prefix (l @ ''.'') x) out_lbls"

definition targets :: "listing \<Rightarrow> string list" where
  "targets d = concat (map (glob_label d) out_lbls)"

text \<open>
  The vocabulary of the retention rule. \<open>epoch_of\<close> is the integer that the second
  dot-delimited token of a name denotes, if it is numeric and \<open>int\<close> accepts it.
  \<open>analyzed d e\<close> says that \<open>d\<close> has a subdirectory whose name starts with
  \<open>analyze.\<close> and whose second token denotes \<open>e\<close>. \<open>int_accepts d\<close> says that \<open>int\<close>
  raises on none of the tokens \<open>clean_dir\<close> passes to it: every numeric second token of
  an \<open>analyze.\<close> subdirectory or of a file matched by a glob consists of decimal
  digits.
\<close>

definition epoch_of :: "string \<Rightarrow> int option" where
  "epoch_of nm =
     (case item1 (split_dot nm) of
        Inl _ \<Rightarrow> None
      | Inr tok \<Rightarrow>
          if isnumeric tok then (case py_int tok of Inl _ \<Rightarrow> None | Inr e \<Rightarrow> Some e)
          else None)"

definition analyzed :: "listing \<Rightarrow> int \<Rightarrow> bool" where
  "analyzed d e =
     list_ex (\<lambda>(nm, k). k = Dir \<and> take 8 nm = ''analyze.'' \<and> epoch_of nm = Some e) d"

definition token_ok :: "string \<Rightarrow> bool" where
  "token_ok nm =
     (case item1 (split_dot nm) of
        Inl _ \<Rightarrow> True
      | Inr tok \<Rightarrow> \<not> isnumeric tok \<or> list_all decimal_char tok)"

definition int_accepts :: "listing \<Rightarrow> bool" where
  "int_accepts d =
     list_all (\<lambda>(nm, k).
        \<not> ((k = Dir \<and> take 8 nm = ''analyze.'') \<or> (k = File \<and> lbl_name nm)) \<or> token_ok nm) d"

text \<open>
  The retention rule for an entry of directory \<open>d\<close> under modulus \<open>n\<close>: a file
  matched by one of the four globs, whose epoch is not a multiple of \<open>n\<close> and is not
  the epoch of an analysis subdirectory.
\<close>

definition deletable :: "int \<Rightarrow> listing \<Rightarrow> string \<times> kind \<Rightarrow> bool" where
  "deletable n d x =
     (snd x = File \<and> lbl_name (fst x) \<and>
      (case epoch_of (fst x) of None \<Rightarrow> False | Some e \<Rightarrow> e mod n \<noteq> 0 \<and> \<not> analyzed d e))"

section \<open>check\_open\_config\<close>

text \<open>
  What \<open>yaml.safe_load\<close> returns: \<open>None\<close>, booleans, integers, strings, lists and
  dictionaries (a dictionary as the list of its items, keys distinct). Floats,
  timestamps and binary scalars are left out.
\<close>

datatype yaml =
    YNone | YBool bool | YInt int | YStr string | YList "yaml list" | YMap "(yaml \<times> yaml) list"

text \<open>Truth value of an object, as \<open>if cfg:\<close> and \<open>not cfg\<close> test it.\<close>

fun truthy :: "yaml \<Rightarrow> bool" where
  "truthy YNone = False"
| "truthy (YBool b) = b"
| "truthy (YInt i) = (i \<noteq> 0)"
| "truthy (YStr s) = (s \<noteq> [])"
| "truthy (YList l) = (l \<noteq> [])"
| "truthy (YMap m) = (m \<noteq> [])"

fun is_substr :: "string \<Rightarrow> string \<Rightarrow> bool" where
  "is_substr p [] = (p = [])"
| "is_substr p (c # cs) = (prefix p (c # cs) \<or> is_substr p cs)"

text \<open>
  \<open>s in v\<close> for a string \<open>s\<close>: a key of a dictionary, an element of a list, a
  substring of a string, and a \<open>TypeError\<close> on anything that is not a container.
\<close>

fun py_in :: "string \<Rightarrow> yaml \<Rightarrow> pyexc + bool" where
  "py_in s (YMap m) = Inr (list_ex (\<lambda>kv. fst kv = YStr s) m)"
| "py_in s (YList l) = Inr (list_ex (\<lambda>v. v = YStr s) l)"
| "py_in s (YStr t) = Inr (is_substr s t)"
| "py_in s _ = Inl TypeError"

text \<open>
  \<open>v[s]\<close> for a string \<open>s\<close>: the value of a dictionary key, \<open>KeyError\<close> if it is
  absent, and \<open>TypeError\<close> on lists and strings (indices must be integers) and on
  everything else (not subscriptable).
\<close>

fun getitem_str :: "yaml \<Rightarrow> string \<Rightarrow> pyexc + yaml" where
  "getitem_str (YMap m) s = (case map_of m (YStr s) of None \<Rightarrow> Inl KeyError | Some v \<Rightarrow> Inr v)"
| "getitem_str _ s = Inl TypeError"

text \<open>
  \<open>v[i]\<close> for the indices 0 and 1: an element of a list, a character of a string, the
  value of a dictionary whose key equals the integer (\<open>False == 0\<close> and \<open>True == 1\<close>
  in Python).
\<close>

definition key_is :: "nat \<Rightarrow> yaml \<Rightarrow> bool" where
  "key_is i k = (k = YInt (int i) \<or> (i = 0 \<and> k = YBool False) \<or> (i = 1 \<and> k = YBool True))"

fun getitem_int :: "yaml \<Rightarrow> nat \<Rightarrow> pyexc + yaml" where
  "getitem_int (YList l) i = (if i < length l then Inr (l ! i) else Inl IndexError)"
| "getitem_int (YStr t) i = (if i < length t then Inr (YStr [t ! i]) else Inl IndexError)"
| "getitem_int (YMap m) i =
     (case List.find (\<lambda>kv. key_is i (fst kv)) m of None \<Rightarrow> Inl KeyError | Some kv \<Rightarrow> Inr (snd kv))"
| "getitem_int _ i = Inl TypeError"

text \<open>\<open>v in cryodrgn_cmds\<close>, a set of strings: lists and dictionaries are unhashable.\<close>

definition cryodrgn_cmds :: "string list" where
  "cryodrgn_cmds = [''abinit_homo'', ''abinit_het'', ''train_nn'', ''train_vae'']"

fun in_cmds :: "yaml \<Rightarrow> pyexc + bool" where
  "in_cmds (YStr s) = Inr (s \<in> set cryodrgn_cmds)"
| "in_cmds (YList _) = Inl TypeError"
| "in_cmds (YMap _) = Inl TypeError"
| "in_cmds _ = Inr False"

text \<open>Sequencing of computations that may raise.\<close>

definition bind_exc :: "pyexc + 'a \<Rightarrow> ('a \<Rightarrow> pyexc + 'b) \<Rightarrow> pyexc + 'b" where
  "bind_exc m f = (case m of Inl e \<Rightarrow> Inl e | Inr x \<Rightarrow> f x)"

text \<open>
  The condition \<open>"cmd" not in cfg or "cryodrgn" not in cfg["cmd"][0] or
  cfg["cmd"][1] not in cryodrgn_cmds or "dataset_args" not in cfg\<close>, evaluated from
  left to right and stopping at the first disjunct that holds.
\<close>

definition bad_shape :: "yaml \<Rightarrow> pyexc + bool" where
  "bad_shape cfg =
     bind_exc (py_in ''cmd'' cfg) (\<lambda>has_cmd.
       if \<not> has_cmd then Inr True
       else
         bind_exc (getitem_str cfg ''cmd'') (\<lambda>cmd.
         bind_exc (getitem_int cmd 0) (\<lambda>cmd0.
         bind_exc (py_in ''cryodrgn'' cmd0) (\<lambda>is_tool.
           if \<not> is_tool then Inr True
           else
             bind_exc (getitem_str cfg ''cmd'') (\<lambda>cmd'.
             bind_exc (getitem_int cmd' 1) (\<lambda>cmd1.
             bind_exc (in_cmds cmd1) (\<lambda>known.
               if \<not> known then Inr True
               else bind_exc (py_in ''dataset_args'' cfg) (\<lambda>has_args. Inr (\<not> has_args)))))))))"

text \<open>
  The candidate names in the order \<open>itertools.product\<close> yields them, and the loop
  that stops at the first one among the files of the directory.
\<close>

definition config_names :: "string list" where
  "config_names =
     map (\<lambda>(cfg_lbl, cfg_ext). cfg_lbl @ cfg_ext)
       (List.product [''config'', ''configs''] [''.yaml'', ''.yml''])"

definition dir_files :: "listing \<Rightarrow> string list" where
  "dir_files d = map fst (filter (\<lambda>e. snd e = File) d)"

definition find_config :: "listing \<Rightarrow> string option" where
  "find_config d = List.find (\<lambda>c. c \<in> set (dir_files d)) config_names"

text \<open>
  \<open>check_open_config\<close> on a directory \<open>d\<close>; \<open>load c\<close> is what opening the file \<open>c\<close> of
  this directory and \<open>yaml.safe_load\<close> give: a value or an exception. The shape test
  is outside the \<open>try\<close> block.
\<close>

definition check_open_config :: "listing \<Rightarrow> (string \<Rightarrow> pyexc + yaml) \<Rightarrow> pyexc + yaml" where
  "check_open_config d load =
     (case find_config d of
        None \<Rightarrow> Inr YNone
      | Some config \<Rightarrow>
          if config = [] then Inr YNone
          else
            (case load config of
               Inl e \<Rightarrow> if caught_by NORMAL_EXCEPTIONS e then Inr YNone else Inl e
             | Inr cfg \<Rightarrow>
                 (case bad_shape cfg of
                    Inl e \<Rightarrow> Inl e
                  | Inr bad \<Rightarrow> Inr (if bad then YMap [] else cfg))))"

section \<open>main\<close>

text \<open>
  Paths are relative to the working directory, as \<open>Path().glob\<close> returns them: the
  list of their parts, the empty list for the working directory itself. \<open>p.parents\<close>
  are the proper prefixes of \<open>p\<close>, and paths compare as their lists of parts do.
  Symbolic links and \<open>..\<close> are not resolved, in the source as in the model.
\<close>

type_synonym path = "string list"

fun join_path :: "path \<Rightarrow> string" where
  "join_path [] = []"
| "join_path [x] = x"
| "join_path (x # y # ys) = x @ ''/'' @ join_path (y # ys)"

definition path_str :: "path \<Rightarrow> string" where
  "path_str p = (if p = [] then ''.'' else join_path p)"

definition ljust :: "nat \<Rightarrow> string \<Rightarrow> string" where
  "ljust n s = s @ replicate (n - length s) CHR '' ''"

function str_nat :: "nat \<Rightarrow> string" where
  "str_nat n = (if n < 10 then [char_of (48 + n)] else str_nat (n div 10) @ [char_of (48 + n mod 10)])"
  by pat_completeness auto
termination
  by (relation "measure id") auto

declare str_nat.simps [simp del]

text \<open>
  What the run does not change: the expansion of each glob pattern, which paths are
  directories, and what loading a file of a directory gives.
\<close>

record env =
  glob :: "string \<Rightarrow> path list"
  is_dir :: "path \<Rightarrow> bool"
  load :: "path \<Rightarrow> string \<Rightarrow> pyexc + yaml"

text \<open>
  What the run sees happen, in order. \<open>Checked\<close> and \<open>Cleaned\<close> record the two calls
  \<open>check_open_config\<close> (with the value it returned) and \<open>clean_dir\<close> (with the
  directory before and after, and how it ended); \<open>Printed\<close> is a line written and
  \<open>Asked\<close> a prompt with the answer read. Each event carries the directory it is
  about.
\<close>

datatype event =
    Checked path yaml
  | Printed path string
  | Asked path string string
  | Cleaned path listing listing "pyexc + nat"

fun event_dir :: "event \<Rightarrow> path" where
  "event_dir (Checked p _) = p"
| "event_dir (Printed p _) = p"
| "event_dir (Asked p _ _) = p"
| "event_dir (Cleaned p _ _ _) = p"

text \<open>The state of a run: every directory's entries, the input not yet read, the events.\<close>

record state =
  fs :: "path \<Rightarrow> listing"
  stdin :: "string list"
  log :: "event list"

definition emit :: "event \<Rightarrow> state \<Rightarrow> state" where
  "emit e s = s\<lparr>log := log s @ [e]\<rparr>"

text \<open>
  \<open>clean_dir\<close> called on the directory at path \<open>p\<close>, with the line it prints when it
  gets that far.
\<close>

definition count_line :: "bool \<Rightarrow> nat \<Rightarrow> string" where
  "count_line dry n =
     (if dry then [CHR 0x09] @ ''Would remove '' @ str_nat n @ '' files!''
      else [CHR 0x09] @ ''Removed '' @ str_nat n @ '' files!'')"

definition call_clean_dir :: "path \<Rightarrow> pyargs \<Rightarrow> state \<Rightarrow> state \<times> (pyexc + unit)" where
  "call_clean_dir p a s =
     (case clean_dir a (fs s p) of (d', r) \<Rightarrow>
        let s' = emit (Cleaned p (fs s p) d' r) (s\<lparr>fs := (fs s)(p := d')\<rparr>) in
        (case r of
           Inl e \<Rightarrow> (s', Inl e)
         | Inr n \<Rightarrow>
             (case get_dry_run a of
                Inl e \<Rightarrow> (s', Inl e)
              | Inr dry \<Rightarrow> (emit (Printed p (count_line dry n)) s', Inr ()))))"

text \<open>\<open>_prompt_dir\<close>. \<open>input\<close> raises \<open>EOFError\<close> when there is nothing left to read.\<close>

definition prompt_dir :: "path \<Rightarrow> yaml \<Rightarrow> nat \<Rightarrow> args \<Rightarrow> state \<Rightarrow> state \<times> (pyexc + unit)" where
  "prompt_dir p cfg maxlen a s =
     (let msg = (if \<not> truthy cfg then ''is not a cryoDRGN directory''
                 else ''is a cryoDRGN directory'');
          s1 = (if (truthy cfg \<and> dry_run a) \<or> (\<not> truthy cfg \<and> verbose a > 0)
                then emit (Printed p (ljust (maxlen + 2) (''`'' @ path_str p @ ''`'') @ msg)) s
                else s)
      in if truthy cfg then
           (if force a \<or> dry_run a then call_clean_dir p (Namespace a) s1
            else
              (case stdin s1 of
                 [] \<Rightarrow> (s1, Inl EOFError)
               | prompt # rest \<Rightarrow>
                   let s2 = emit (Asked p (''`'' @ path_str p @ '' '' @ msg @
                                '', enter 1) '' @ [CHR 0x22] @ ''(s)kip'' @ [CHR 0x22] @
                                '' or 2) any other key to clean:'') prompt)
                              (s1\<lparr>stdin := rest\<rparr>)
                   in if prompt \<notin> {''s'', ''skip''} then call_clean_dir p (Namespace a) s2
                      else (s2, Inr ())))
         else (s1, Inr ()))"

text \<open>
  The \<open>while\<close> loop of \<open>main\<close>: the head of the queue is classified and handed to
  \<open>_prompt_dir\<close>, and when the classification is true the queue loses the paths that
  have the head among their parents.
\<close>

function scan_loop :: "args \<Rightarrow> env \<Rightarrow> nat \<Rightarrow> path list \<Rightarrow> state \<Rightarrow> state \<times> (pyexc + unit)" where
  "scan_loop a ev maxlen [] s = (s, Inr ())"
| "scan_loop a ev maxlen (cur_dir # scan_dirs) s =
     (case check_open_config (fs s cur_dir) (load ev cur_dir) of
        Inl e \<Rightarrow> (s, Inl e)
      | Inr cfg \<Rightarrow>
          (case prompt_dir cur_dir cfg maxlen a (emit (Checked cur_dir cfg) s) of
             (s', Inl e) \<Rightarrow> (s', Inl e)
           | (s', Inr _) \<Rightarrow>
               scan_loop a ev maxlen
                 (if truthy cfg then filter (\<lambda>p. \<not> strict_prefix cur_dir p) scan_dirs
                  else scan_dirs) s'))"
  by pat_completeness auto
termination
  by (relation "measure (\<lambda>(a, ev, maxlen, scan_dirs, s). length scan_dirs)")
     (auto simp: less_Suc_eq_le)

text \<open>
  \<open>main\<close>. Without patterns it calls \<open>clean_dir\<close> on the working directory with the
  integer \<open>args.every_n_epochs\<close> in the place of the namespace. With patterns the
  candidates are the matched directories, without duplicates and sorted; \<open>max\<close> of
  an empty list raises \<open>ValueError\<close>. Every pattern is taken to be one that \<open>glob\<close>
  accepts.
\<close>

definition expand :: "args \<Rightarrow> env \<Rightarrow> path list" where
  "expand a ev = sort (remdups (filter (is_dir ev) (concat (map (glob ev) (outglobs a)))))"

definition main :: "args \<Rightarrow> env \<Rightarrow> state \<Rightarrow> state \<times> (pyexc + unit)" where
  "main a ev s =
     (if outglobs a = [] then call_clean_dir [] (PyInt (every_n_epochs a)) s
      else
        (let scan_dirs = expand a ev in
         if scan_dirs = [] then (s, Inl ValueError)
         else scan_loop a ev (Max (set (map (\<lambda>d. length (path_str d)) scan_dirs))) scan_dirs s))"

section \<open>Vocabulary for the properties of main\<close>

text \<open>
  The events of a run are \<open>justified\<close> when every call of \<open>clean_dir\<close> that changed
  its directory comes after \<open>check_open_config\<close> returned a non-empty mapping for
  that directory. They \<open>explain\<close> the change from one state to another when every
  directory that differs was changed by a recorded call of \<open>clean_dir\<close>. They are
  \<open>skipping\<close> when no event, before or after a classification with a true result, is
  about a path that has the classified directory among its parents.
\<close>

definition justified :: "event list \<Rightarrow> bool" where
  "justified es =
     (\<forall>pre q d d' res post. es = pre @ Cleaned q d d' res # post \<and> d' \<noteq> d \<longrightarrow>
        (\<exists>m. m \<noteq> [] \<and> Checked q (YMap m) \<in> set pre))"

definition explained :: "state \<Rightarrow> state \<Rightarrow> event list \<Rightarrow> bool" where
  "explained s s' es =
     (\<forall>q. fs s' q \<noteq> fs s q \<longrightarrow> (\<exists>d d' res. Cleaned q d d' res \<in> set es \<and> d' \<noteq> d))"

definition skipping :: "event list \<Rightarrow> bool" where
  "skipping es =
     (\<forall>pre p c post. es = pre @ Checked p c # post \<and> truthy c \<longrightarrow>
        (\<forall>e\<in>set (pre @ post). \<not> strict_prefix p (event_dir e)))"

text \<open>
  Auxiliary notions for the proofs: events of \<open>_prompt_dir\<close> before it calls
  \<open>clean_dir\<close>, what one call of \<open>_prompt_dir\<close> adds, and what the loop adds.
\<close>

definition quiet :: "path \<Rightarrow> event list \<Rightarrow> bool" where
  "quiet p es = (\<forall>e\<in>set es. event_dir e = p \<and> (\<forall>q c. e \<noteq> Checked q c)
        \<and> (\<forall>q d d' res. e \<noteq> Cleaned q d d' res))"

definition prompt_post :: "path \<Rightarrow> yaml \<Rightarrow> state \<Rightarrow> state \<Rightarrow> bool" where
  "prompt_post p cfg s s' =
     (\<exists>new. log s' = log s @ new
       \<and> (\<forall>e\<in>set new. event_dir e = p \<and> (\<forall>q c. e \<noteq> Checked q c))
       \<and> ((\<exists>q d d' res. Cleaned q d d' res \<in> set new) \<longrightarrow> truthy cfg)
       \<and> (\<forall>q. fs s' q \<noteq> fs s q \<longrightarrow> (\<exists>d d' res. Cleaned q d d' res \<in> set new \<and> d' \<noteq> d)))"

definition loop_post :: "path list \<Rightarrow> state \<Rightarrow> state \<Rightarrow> bool" where
  "loop_post q s s' =
     (\<exists>new. log s' = log s @ new \<and> (\<forall>e\<in>set new. event_dir e \<in> set q)
        \<and> justified new \<and> explained s s' new \<and> skipping new)"

text \<open>An example run: one recognised output directory with an analysis subdirectory.\<close>

definition ex_cfg :: yaml where
  "ex_cfg = YMap [(YStr ''cmd'', YList [YStr ''cryodrgn'', YStr ''train_nn'']),
                  (YStr ''dataset_args'', YMap [])]"

definition ex_env :: env where
  "ex_env = \<lparr>glob = (\<lambda>g. [[''out''], [''out'', ''analyze.3'']]), is_dir = (\<lambda>p. True),
             load = (\<lambda>p c. Inr ex_cfg)\<rparr>"

definition ex_state :: state where
  "ex_state =
     \<lparr>fs = (\<lambda>p. if p = [''out'']
                  then [(''config.yaml'', File), (''weights.1.pkl'', File), (''analyze.3'', Dir)]
                  else []),
      stdin = [], log = []\<rparr>"

definition ex_args :: args where
  "ex_args = \<lparr>outglobs = [''*''], every_n_epochs = 5, force = True, verbose = 0,
              dry_run = False\<rparr>"

section \<open>The test fixture TrainDir\<close>

text \<open>
  The fields of a \<open>TrainDir\<close>. The fixture sees the file system through
  \<open>os.listdir\<close>, and the commands handed to \<open>run_command\<close> are recorded.
  \<open>run_command\<close> itself belongs to \<open>cryodrgn.utils\<close> and is a parameter here: it
  takes the command line and returns the two output texts and the world it leaves.
\<close>

record train_dir =
  dataset :: string
  train_cmd :: string
  epochs :: int
  out_lbl :: string
  outdir :: string
  orig_cache :: string
  particles :: string
  poses :: string

record fixture_world =
  listdir :: "string \<Rightarrow> string list"
  launched :: "string list"

type_synonym runner = "string \<Rightarrow> fixture_world \<Rightarrow> (string \<times> string) \<times> fixture_world"

definition str_int :: "int \<Rightarrow> string" where
  "str_int i = (if i < 0 then ''-'' @ str_nat (nat (- i)) else str_nat (nat i))"

text \<open>Truth value of an \<open>Optional[int]\<close>: \<open>None\<close> and \<open>0\<close> are false.\<close>

definition epoch_true :: "int option \<Rightarrow> bool" where
  "epoch_true epoch = (case epoch of None \<Rightarrow> False | Some e \<Rightarrow> e \<noteq> 0)"

text \<open>The part of \<open>epoch_cleaned\<close> after \<open>epoch_lbl\<close> is set.\<close>

definition files_cleaned :: "train_dir \<Rightarrow> string list \<Rightarrow> string \<Rightarrow> bool" where
  "files_cleaned t out_files epoch_lbl =
     (let cleaned = True;
          cleaned = (if ''weights'' @ epoch_lbl @ ''.pkl'' \<in> set out_files then False else cleaned)
      in if train_cmd t = ''train_nn'' then
           (if ''reconstruct'' @ epoch_lbl @ ''.mrc'' \<in> set out_files then False else cleaned)
         else if train_cmd t = ''train_vae'' then
           (if ''z'' @ epoch_lbl @ ''.pkl'' \<in> set out_files then False else cleaned)
         else cleaned)"

definition epoch_cleaned :: "train_dir \<Rightarrow> fixture_world \<Rightarrow> int option \<Rightarrow> pyexc + bool" where
  "epoch_cleaned t w epoch =
     (if epoch_true epoch \<and> \<not> (0 \<le> the epoch \<and> the epoch < epochs t) then Inl ValueError
      else
        Inr (files_cleaned t (listdir w (outdir t))
               (if epoch_true epoch then ''.'' @ str_int (the epoch) else [])))"

text \<open>
  \<open>all_files_present\<close>: \<open>any\<close> stops at the first epoch that is cleaned, and an
  exception of \<open>epoch_cleaned\<close> would end it.
\<close>

fun any_cleaned :: "train_dir \<Rightarrow> fixture_world \<Rightarrow> int option list \<Rightarrow> pyexc + bool" where
  "any_cleaned t w [] = Inr False"
| "any_cleaned t w (epoch # rest) =
     (case epoch_cleaned t w epoch of
        Inl e \<Rightarrow> Inl e
      | Inr cleaned \<Rightarrow> if cleaned then Inr True else any_cleaned t w rest)"

definition py_range :: "int \<Rightarrow> int list" where
  "py_range n = map int [0..<nat n]"

definition all_files_present :: "train_dir \<Rightarrow> fixture_world \<Rightarrow> pyexc + bool" where
  "all_files_present t w =
     (case any_cleaned t w (map Some (py_range (epochs t)) @ [None]) of
        Inl e \<Rightarrow> Inl e
      | Inr b \<Rightarrow> Inr (\<not> b))"

text \<open>\<open>os.path.join\<close> with a relative second argument.\<close>

definition os_path_join :: "string \<Rightarrow> string \<Rightarrow> string" where
  "os_path_join a b =
     (if a = [] then b else if last a = CHR ''/'' then a @ b else a @ ''/'' @ b)"

definition mode_flags :: "string \<Rightarrow> string" where
  "mode_flags cmd =
     (if cmd = ''train_vae'' then ''--zdim=8 --tdim=16 --tlayers=1 ''
      else if cmd = ''train_nn'' then ''--dim=16 --layers=2 ''
      else [])"

text \<open>
  \<open>train_load_epoch\<close>: the fixture and the world it leaves, and how it ended. A failed
  \<open>assert\<close> is an \<open>AssertionError\<close>.
\<close>

definition train_load_epoch ::
  "runner \<Rightarrow> int \<Rightarrow> int \<Rightarrow> train_dir \<times> fixture_world \<Rightarrow> (train_dir \<times> fixture_world) \<times> (pyexc + unit)" where
  "train_load_epoch run_command load_epoch train_epochs st =
     (case st of (t, w) \<Rightarrow>
        if \<not> (0 \<le> load_epoch \<and> load_epoch < epochs t) then ((t, w), Inl ValueError)
        else
          (let cmd = ''cryodrgn '' @ train_cmd t @ '' '' @ particles t @ '' -o '' @ outdir t @ '' ''
                   @ ''--poses '' @ poses t @ '' --no-amp -n='' @ str_int train_epochs @ '' ''
                   @ ''--load ''
                   @ os_path_join (outdir t) (''weights.'' @ str_int load_epoch @ ''.pkl'') @ '' ''
                   @ mode_flags (train_cmd t)
           in case run_command cmd (w\<lparr>launched := launched w @ [cmd]\<rparr>) of (oe, w') \<Rightarrow>
                if \<not> is_substr '') Finished in '' (fst oe) then ((t, w'), Inl AssertionError)
                else
                  (let t' = t\<lparr>epochs := train_epochs\<rparr>
                   in case all_files_present t' w' of
                        Inl e \<Rightarrow> ((t', w'), Inl e)
                      | Inr ok \<Rightarrow> ((t', w'), if ok then Inr () else Inl AssertionError))))"

text \<open>The epoch-0 files, and an example fixture with a runner that reports success.\<close>

definition zero_names :: "string set" where
  "zero_names = {''weights.0.pkl'', ''z.0.pkl'', ''reconstruct.0.mrc''}"


definition ex_train_dir :: train_dir where
  "ex_train_dir = \<lparr>dataset = ''hand'', train_cmd = ''train_nn'', epochs = 2,
      out_lbl = ''hand_train_nn'', outdir = ''/tmp/hand_train_nn'',
      orig_cache = ''/tmp/hand_train_nn/orig_cache'', particles = ''/data/hand.mrcs'',
      poses = ''/data/hand_rot.pkl''\<rparr>"

definition ex_world :: "string list \<Rightarrow> fixture_world" where
  "ex_world names = \<lparr>listdir = (\<lambda>d. names), launched = []\<rparr>"

definition ex_runner :: runner where
  "ex_runner cmd w = ((''(10) Finished in 0:00:01'', []), w)"

section \<open>Properties of clean\_dir\<close>

subsection \<open>The directory only shrinks, and the four globs do not interfere\<close>

lemma map_of_os_remove: "map_of (os_remove x d) y = (if y = x then None else map_of d y)"
  by (induction d) (auto simp: os_remove_def)

lemma is_file_os_remove: "is_file (os_remove x d) y = (y \<noteq> x \<and> is_file d y)"
  by (simp add: is_file_def map_of_os_remove)

lemma should_remove_cong:
  "is_file d' nm = is_file d nm \<Longrightarrow> should_remove a an d' nm = should_remove a an d nm"
  by (simp add: should_remove_def split: sum.splits)

lemma map_of_filter_names:
  "map_of (filter (\<lambda>e. fst e \<notin> D) d) y = (if y \<in> D then None else map_of d y)"
  by (induction d) auto

lemma clean_files_append:
  "clean_files a an (xs @ ys) st =
     (case clean_files a an xs st of
        (d', Inl e) \<Rightarrow> (d', Inl e)
      | (d', Inr c') \<Rightarrow> clean_files a an ys (d', c'))"
  by (induction xs arbitrary: st) (simp_all split: sum.split)

lemma visit_shrinks:
  "visit a an nm st = Inr st' \<Longrightarrow> fst st' = fst st \<or> fst st' = os_remove nm (fst st)"
  by (auto simp: visit_def split: sum.splits if_splits)

lemma clean_files_shrinks:
  "\<exists>D. D \<subseteq> set nms \<and> fst (clean_files a an nms st) = filter (\<lambda>e. fst e \<notin> D) (fst st)"
proof (induction nms arbitrary: st)
  case Nil
  have "{} \<subseteq> set ([]::string list) \<and> fst (clean_files a an [] st) = filter (\<lambda>e. fst e \<notin> {}) (fst st)"
    by simp
  then show ?case by (rule exI)
next
  case (Cons nm nms)
  show ?case
  proof (cases "visit a an nm st")
    case (Inl e)
    then have "{} \<subseteq> set (nm # nms) \<and>
        fst (clean_files a an (nm # nms) st) = filter (\<lambda>e. fst e \<notin> {}) (fst st)"
      by simp
    then show ?thesis by (rule exI)
  next
    case (Inr st')
    from Cons.IH [of st'] obtain D where D: "D \<subseteq> set nms"
      "fst (clean_files a an nms st') = filter (\<lambda>e. fst e \<notin> D) (fst st')" by blast
    from visit_shrinks [OF Inr] show ?thesis
    proof
      assume "fst st' = fst st"
      with D Inr have "D \<subseteq> set (nm # nms) \<and>
          fst (clean_files a an (nm # nms) st) = filter (\<lambda>e. fst e \<notin> D) (fst st)"
        by (simp add: subset_insertI2)
      then show ?thesis by (rule exI)
    next
      assume *: "fst st' = os_remove nm (fst st)"
      have "filter (\<lambda>e. fst e \<notin> D) (os_remove nm (fst st)) = filter (\<lambda>e. fst e \<notin> insert nm D) (fst st)"
        by (simp add: os_remove_def conj_commute)
      with * D Inr have "insert nm D \<subseteq> set (nm # nms) \<and>
          fst (clean_files a an (nm # nms) st) = filter (\<lambda>e. fst e \<notin> insert nm D) (fst st)"
        by (simp add: subset_insertI2)
      then show ?thesis by (rule exI)
    qed
  qed
qed


lemma lbl_name_cases:
  "lbl_name x \<longleftrightarrow> prefix ''weights.'' x \<or> prefix ''z.'' x \<or> prefix ''pose.'' x \<or> prefix ''reconstruct.'' x"
  by (simp add: lbl_name_def out_lbls_def)

lemma lbl_disjoint:
  "l \<in> set out_lbls \<Longrightarrow> l' \<in> set out_lbls \<Longrightarrow> l \<noteq> l' \<Longrightarrow> prefix (l @ ''.'') x \<Longrightarrow> \<not> prefix (l' @ ''.'') x"
  by (auto simp: out_lbls_def prefix_def)

lemma lbl_not_analyze: "lbl_name x \<Longrightarrow> take 8 x \<noteq> ''analyze.''"
  by (auto simp: lbl_name_cases prefix_def)

lemma lbl_has_dot: "lbl_name x \<Longrightarrow> CHR ''.'' \<in> set x"
  by (auto simp: lbl_name_cases prefix_def)

lemma split_dot_nonempty: "split_dot x \<noteq> []"
  by (induction x) (simp_all split: list.splits)

lemma split_dot_dot: "CHR ''.'' \<in> set x \<Longrightarrow> \<exists>t u us. split_dot x = t # u # us"
proof (induction x)
  case Nil
  then show ?case by simp
next
  case (Cons c cs)
  show ?case
  proof (cases "c = CHR ''.''")
    case True
    then show ?thesis using split_dot_nonempty [of cs] by (cases "split_dot cs") simp_all
  next
    case False
    with Cons.prems have "CHR ''.'' \<in> set cs" by simp
    from Cons.IH [OF this] obtain t u us where "split_dot cs = t # u # us" by blast
    with False show ?thesis by simp
  qed
qed

lemma item1_dot: "CHR ''.'' \<in> set x \<Longrightarrow> \<exists>tok. item1 (split_dot x) = Inr tok"
  using split_dot_dot [of x] by (auto simp: item1_def)

lemma glob_label_filter:
  assumes "\<And>x. x \<in> D \<Longrightarrow> \<not> prefix (l @ ''.'') x"
  shows "glob_label (filter (\<lambda>e. fst e \<notin> D) d) l = glob_label d l"
proof -
  have "filter (prefix (l @ ''.'')) (map fst (filter (\<lambda>e. fst e \<notin> D) d))
      = filter (\<lambda>x. x \<notin> D \<and> prefix (l @ ''.'') x) (map fst d)"
    by (induction d) auto
  also have "\<dots> = filter (prefix (l @ ''.'')) (map fst d)"
    using assms by (intro filter_cong) auto
  finally show ?thesis by (simp add: glob_label_def)
qed

lemma set_glob_label: "set (glob_label d l) = {x \<in> fst ` set d. prefix (l @ ''.'') x}"
  by (auto simp: glob_label_def)

lemma clean_labels_flat:
  assumes "distinct lbls" "set lbls \<subseteq> set out_lbls"
  shows "clean_labels a an lbls st = clean_files a an (concat (map (glob_label (fst st)) lbls)) st"
  using assms
proof (induction lbls arbitrary: st)
  case Nil
  show ?case by simp
next
  case (Cons l ls)
  obtain d' r where res: "clean_files a an (glob_label (fst st) l) st = (d', r)"
    by (cases "clean_files a an (glob_label (fst st) l) st")
  from clean_files_shrinks [of "glob_label (fst st) l" a an st] res
  obtain D where D: "D \<subseteq> set (glob_label (fst st) l)" "d' = filter (\<lambda>e. fst e \<notin> D) (fst st)"
    by auto
  have same: "glob_label d' l' = glob_label (fst st) l'" if "l' \<in> set ls" for l'
  proof -
    from that Cons.prems have "l' \<in> set out_lbls" "l \<in> set out_lbls" "l \<noteq> l'" by auto
    then have "\<And>x. x \<in> D \<Longrightarrow> \<not> prefix (l' @ ''.'') x"
      using D(1) lbl_disjoint [of l l'] by (auto simp: set_glob_label)
    then show ?thesis unfolding D(2) by (rule glob_label_filter)
  qed
  then have maps: "map (glob_label d') ls = map (glob_label (fst st)) ls" by simp
  show ?case
  proof (cases r)
    case (Inl e)
    with res show ?thesis by (simp add: clean_files_append)
  next
    case (Inr c')
    from Cons.prems have "distinct ls" "set ls \<subseteq> set out_lbls" by auto
    from Cons.IH [OF this, of "(d', c')"] maps res Inr
    show ?thesis by (simp add: clean_files_append)
  qed
qed

lemma clean_dir_flat:
  "clean_dir a d =
     (case analysis_epochs d of
        Inl e \<Rightarrow> (d, Inl e)
      | Inr an \<Rightarrow>
          (case clean_files a an (targets d) (d, 0) of
             (d', Inl e) \<Rightarrow> (d', Inl e)
           | (d', Inr c) \<Rightarrow>
               (case get_dry_run a of Inl e \<Rightarrow> (d', Inl e) | Inr _ \<Rightarrow> (d', Inr c))))"
proof -
  have "distinct out_lbls" by (simp add: out_lbls_def)
  then have "clean_labels a an out_lbls (d, 0) = clean_files a an (targets d) (d, 0)" for an
    using clean_labels_flat [of out_lbls a an "(d, 0)"] by (simp add: targets_def)
  then show ?thesis by (simp add: clean_dir_def split: sum.splits)
qed

lemma set_targets: "set (targets d) = {x \<in> fst ` set d. lbl_name x}"
  by (auto simp: targets_def set_glob_label lbl_name_def list_ex_iff)

subsection \<open>Dry run\<close>

lemma should_remove_dry_run [simp]:
  "should_remove (Namespace (a\<lparr>dry_run := b\<rparr>)) an d nm = should_remove (Namespace a) an d nm"
  by (simp add: should_remove_def cong: sum.case_cong if_cong)

lemma visit_Namespace:
  "visit (Namespace a) an nm st =
     (case should_remove (Namespace a) an (fst st) nm of
        Inl e \<Rightarrow> Inl e
      | Inr b \<Rightarrow> Inr (if b then (if dry_run a then fst st else os_remove nm (fst st), snd st + 1) else st))"
  by (simp add: visit_def split: sum.splits)

lemma clean_files_dry_fst:
  "dry_run a \<Longrightarrow> fst (clean_files (Namespace a) an nms st) = fst st"
proof (induction nms arbitrary: st)
  case Nil
  show ?case by simp
next
  case (Cons nm nms)
  show ?case
  proof (cases "should_remove (Namespace a) an (fst st) nm")
    case (Inl e)
    then show ?thesis by (simp add: visit_Namespace)
  next
    case (Inr b)
    with Cons.prems Cons.IH show ?thesis by (simp add: visit_Namespace)
  qed
qed

lemma clean_dir_dry_fst: "dry_run a \<Longrightarrow> fst (clean_dir (Namespace a) d) = d"
proof (cases "analysis_epochs d")
  case (Inl e)
  then show ?thesis by (simp add: clean_dir_flat)
next
  case (Inr an)
  assume "dry_run a"
  then have *: "fst (clean_files (Namespace a) an (targets d) (d, 0)) = d"
    using clean_files_dry_fst [of a an "targets d" "(d, 0)"] by simp
  obtain d' r where r: "clean_files (Namespace a) an (targets d) (d, 0) = (d', r)"
    by (cases "clean_files (Namespace a) an (targets d) (d, 0)")
  with * have "d' = d" by simp
  with Inr r show ?thesis by (simp add: clean_dir_flat split: sum.splits)
qed

lemma length_os_remove:
  "distinct (map fst d) \<Longrightarrow> map_of d x = Some k \<Longrightarrow> Suc (length (os_remove x d)) = length d"
proof (induction d)
  case Nil
  then show ?case by simp
next
  case (Cons e d)
  show ?case
  proof (cases "fst e = x")
    case True
    with Cons.prems have "x \<notin> fst ` set d" by auto
    then have "filter (\<lambda>e. fst e \<noteq> x) d = d" by (intro filter_True) auto
    with True show ?thesis by (simp add: os_remove_def)
  next
    case False
    with Cons.prems have "map_of d x = Some k" "distinct (map fst d)" by (auto split: if_splits)
    from Cons.IH [OF this(2,1)] False show ?thesis by (simp add: os_remove_def)
  qed
qed

lemma distinct_os_remove: "distinct (map fst d) \<Longrightarrow> distinct (map fst (os_remove x d))"
  by (simp add: os_remove_def distinct_map_filter)

lemma should_remove_True_is_file: "should_remove a an d nm = Inr True \<Longrightarrow> is_file d nm"
  by (auto simp: should_remove_def split: sum.splits if_splits)

lemma clean_files_real_dry:
  assumes "distinct nms" "distinct (map fst dr)" "\<forall>x\<in>set nms. is_file dr x = is_file d0 x"
  shows "snd (clean_files (Namespace (a\<lparr>dry_run := False\<rparr>)) an nms (dr, c))
           = snd (clean_files (Namespace (a\<lparr>dry_run := True\<rparr>)) an nms (d0, c))
       \<and> (\<forall>n. snd (clean_files (Namespace (a\<lparr>dry_run := True\<rparr>)) an nms (d0, c)) = Inr n \<longrightarrow>
             length (fst (clean_files (Namespace (a\<lparr>dry_run := False\<rparr>)) an nms (dr, c))) + n
               = length dr + c)"
  using assms
proof (induction nms arbitrary: dr c)
  case Nil
  show ?case by simp
next
  case (Cons nm nms)
  from Cons.prems have same: "is_file dr nm = is_file d0 nm" by simp
  then have sr: "should_remove (Namespace a) an dr nm = should_remove (Namespace a) an d0 nm"
    by (rule should_remove_cong)
  show ?case
  proof (cases "should_remove (Namespace a) an d0 nm")
    case (Inl e)
    with sr show ?thesis by (simp add: visit_Namespace)
  next
    case (Inr b)
    show ?thesis
    proof (cases b)
      case False
      from Cons.prems have "distinct nms" "distinct (map fst dr)"
        "\<forall>x\<in>set nms. is_file dr x = is_file d0 x" by auto
      from Cons.IH [OF this, of c] sr Inr False show ?thesis by (simp add: visit_Namespace)
    next
      case True
      with sr Inr have "is_file dr nm" by (auto dest: should_remove_True_is_file)
      then have len: "Suc (length (os_remove nm dr)) = length dr"
        using Cons.prems(2) by (auto simp: is_file_def intro: length_os_remove)
      from Cons.prems have "distinct nms" "distinct (map fst (os_remove nm dr))"
        "\<forall>x\<in>set nms. is_file (os_remove nm dr) x = is_file d0 x"
        by (auto simp: is_file_os_remove distinct_os_remove)
      from Cons.IH [OF this, of "c + 1"] sr Inr True len show ?thesis
        by (simp add: visit_Namespace)
    qed
  qed
qed

lemma distinct_targets: "distinct (map fst d) \<Longrightarrow> distinct (targets d)"
proof -
  assume d: "distinct (map fst d)"
  have "distinct (concat (map (glob_label d) lbls))" if "distinct lbls" "set lbls \<subseteq> set out_lbls" for lbls
    using that
  proof (induction lbls)
    case Nil
    show ?case by simp
  next
    case (Cons l ls)
    have "set (glob_label d l) \<inter> set (concat (map (glob_label d) ls)) = {}"
    proof -
      have False if "x \<in> set (glob_label d l)" "l' \<in> set ls" "x \<in> set (glob_label d l')" for x l'
      proof -
        from that Cons.prems have "l \<in> set out_lbls" "l' \<in> set out_lbls" "l \<noteq> l'" by auto
        from lbl_disjoint [OF this] that show False by (simp add: set_glob_label)
      qed
      then show ?thesis by auto
    qed
    moreover have "distinct (glob_label d l)" using d by (simp add: glob_label_def)
    moreover from Cons have "distinct (concat (map (glob_label d) ls))" by simp
    ultimately show ?case by simp
  qed
  from this [of out_lbls] show ?thesis by (simp add: targets_def out_lbls_def)
qed

text \<open>
  C4: in dry-run mode \<open>clean_dir\<close> leaves the directory as it found it, and it ends as
  the run that removes files ends on the same directory: with the same exception,
  or with the same count, which is then the number of entries that run removes.
  Names in a directory are distinct.
\<close>

theorem clean_dir_dry_run:
  assumes "distinct (map fst d)"
  shows "fst (clean_dir (Namespace (a\<lparr>dry_run := True\<rparr>)) d) = d
       \<and> snd (clean_dir (Namespace (a\<lparr>dry_run := False\<rparr>)) d)
           = snd (clean_dir (Namespace (a\<lparr>dry_run := True\<rparr>)) d)
       \<and> (\<forall>n. snd (clean_dir (Namespace (a\<lparr>dry_run := True\<rparr>)) d) = Inr n \<longrightarrow>
             length (fst (clean_dir (Namespace (a\<lparr>dry_run := False\<rparr>)) d)) + n = length d)"
proof (cases "analysis_epochs d")
  case (Inl e)
  then show ?thesis by (simp add: clean_dir_flat)
next
  case (Inr an)
  from assms have "distinct (targets d)" by (rule distinct_targets)
  from clean_files_real_dry [OF this assms, of d a an 0]
  have *: "snd (clean_files (Namespace (a\<lparr>dry_run := False\<rparr>)) an (targets d) (d, 0))
           = snd (clean_files (Namespace (a\<lparr>dry_run := True\<rparr>)) an (targets d) (d, 0))"
    and **: "\<And>n. snd (clean_files (Namespace (a\<lparr>dry_run := True\<rparr>)) an (targets d) (d, 0)) = Inr n \<Longrightarrow>
             length (fst (clean_files (Namespace (a\<lparr>dry_run := False\<rparr>)) an (targets d) (d, 0))) + n
               = length d"
    by auto
  have fst_dry: "fst (clean_dir (Namespace (a\<lparr>dry_run := True\<rparr>)) d) = d"
    by (simp add: clean_dir_dry_fst)
  obtain d1 r1 where r: "clean_files (Namespace (a\<lparr>dry_run := False\<rparr>)) an (targets d) (d, 0) = (d1, r1)"
    by (cases "clean_files (Namespace (a\<lparr>dry_run := False\<rparr>)) an (targets d) (d, 0)")
  obtain d2 r2 where y: "clean_files (Namespace (a\<lparr>dry_run := True\<rparr>)) an (targets d) (d, 0) = (d2, r2)"
    by (cases "clean_files (Namespace (a\<lparr>dry_run := True\<rparr>)) an (targets d) (d, 0)")
  from * r y have eq: "r1 = r2" by simp
  from ** r y have len: "\<And>n. r2 = Inr n \<Longrightarrow> length d1 + n = length d" by simp
  have snd_eq: "snd (clean_dir (Namespace (a\<lparr>dry_run := False\<rparr>)) d)
           = snd (clean_dir (Namespace (a\<lparr>dry_run := True\<rparr>)) d)"
    using Inr r y eq by (simp add: clean_dir_flat split: sum.splits)
  have cnt: "length (fst (clean_dir (Namespace (a\<lparr>dry_run := False\<rparr>)) d)) + n = length d"
    if "snd (clean_dir (Namespace (a\<lparr>dry_run := True\<rparr>)) d) = Inr n" for n
    using that Inr r y eq len by (simp add: clean_dir_flat split: sum.splits)
  from fst_dry snd_eq cnt show ?thesis by blast
qed

theorem clean_dir_dry_run_witness:
  "distinct (map fst [(''weights.1.pkl'', File), (''weights.5.pkl'', File), (''z.2.pkl'', File)])
   \<and> snd (clean_dir (Namespace \<lparr>outglobs = [], every_n_epochs = 5, force = False, verbose = 0,
         dry_run = True\<rparr>) [(''weights.1.pkl'', File), (''weights.5.pkl'', File), (''z.2.pkl'', File)])
       = Inr 2
   \<and> length (fst (clean_dir (Namespace \<lparr>outglobs = [], every_n_epochs = 5, force = False,
         verbose = 0, dry_run = False\<rparr>)
         [(''weights.1.pkl'', File), (''weights.5.pkl'', File), (''z.2.pkl'', File)])) + 2 = 3"
proof -
  let ?d = "[(''weights.1.pkl'', File), (''weights.5.pkl'', File), (''z.2.pkl'', File)]"
  let ?a = "\<lparr>outglobs = [], every_n_epochs = 5, force = False, verbose = 0, dry_run = False\<rparr>"
  have h: "distinct (map fst ?d)" by simp
  have dry: "snd (clean_dir (Namespace (?a\<lparr>dry_run := True\<rparr>)) ?d) = Inr 2"
    by (simp add: clean_dir_def out_lbls_def glob_label_def visit_def should_remove_def
        item1_def isnumeric_def numeric_char_def decimal_char_def py_int_def is_file_def
        digit_value_def)
  from clean_dir_dry_run [OF h, of ?a] dry h show ?thesis by simp
qed

subsection \<open>A second run removes nothing\<close>

lemma should_remove_not_file:
  "CHR ''.'' \<in> set nm \<Longrightarrow> \<not> is_file d nm \<Longrightarrow> should_remove a an d nm = Inr False"
  using item1_dot [of nm] by (auto simp: should_remove_def)

lemma is_file_name: "is_file d x \<Longrightarrow> x \<in> fst ` set d"
  by (auto simp: is_file_def dest: map_of_SomeD intro: rev_image_eqI)

lemma is_file_filter_names:
  "x \<in> fst ` set (filter (\<lambda>e. fst e \<notin> D) d) \<Longrightarrow>
     is_file (filter (\<lambda>e. fst e \<notin> D) d) x = is_file d x"
  by (auto simp: is_file_def map_of_filter_names)

lemma clean_files_keeps_is_file:
  assumes "clean_files a an nms st = (d', r)" "x \<in> fst ` set d'"
  shows "is_file d' x = is_file (fst st) x" and "x \<in> fst ` set (fst st)"
proof -
  from clean_files_shrinks [of nms a an st] assms(1)
  obtain D where D: "d' = filter (\<lambda>e. fst e \<notin> D) (fst st)" by auto
  from assms(2) show "is_file d' x = is_file (fst st) x"
    unfolding D by (rule is_file_filter_names)
  from assms(2) show "x \<in> fst ` set (fst st)" unfolding D by auto
qed

lemma clean_files_again:
  assumes "\<not> dry_run a" "\<forall>x\<in>set nms. CHR ''.'' \<in> set x"
    "clean_files (Namespace a) an nms st = (d', r)"
  shows "clean_files (Namespace a) an (filter (\<lambda>x. x \<in> fst ` set d') nms) (d', c')
           = (d', case r of Inl e \<Rightarrow> Inl e | Inr _ \<Rightarrow> Inr c')"
  using assms
proof (induction nms arbitrary: st)
  case Nil
  then show ?case by auto
next
  case (Cons nm nms)
  from Cons.prems have dots: "\<forall>x\<in>set nms. CHR ''.'' \<in> set x" and dot: "CHR ''.'' \<in> set nm"
    by auto
  show ?case
  proof (cases "should_remove (Namespace a) an (fst st) nm")
    case (Inl e)
    with Cons.prems(3) have res: "d' = fst st" "r = Inl e" by (auto simp: visit_Namespace)
    from Inl dot have "is_file (fst st) nm"
      using should_remove_not_file [of nm "fst st" "Namespace a" an] by auto
    then have "nm \<in> fst ` set d'" unfolding res by (rule is_file_name)
    with Inl res show ?thesis by (simp add: visit_Namespace)
  next
    case (Inr b)
    show ?thesis
    proof (cases b)
      case False
      with Inr Cons.prems(3) have run: "clean_files (Namespace a) an nms st = (d', r)"
        by (simp add: visit_Namespace)
      note IH = Cons.IH [OF Cons.prems(1) dots run]
      show ?thesis
      proof (cases "nm \<in> fst ` set d'")
        case True
        from clean_files_keeps_is_file(1) [OF run True]
        have "should_remove (Namespace a) an d' nm = should_remove (Namespace a) an (fst st) nm"
          by (rule should_remove_cong)
        with Inr False True IH show ?thesis by (simp add: visit_Namespace)
      next
        case False
        with IH show ?thesis by simp
      qed
    next
      case True
      with Inr Cons.prems(1,3)
      have run: "clean_files (Namespace a) an nms (os_remove nm (fst st), snd st + 1) = (d', r)"
        by (simp add: visit_Namespace)
      have "nm \<notin> fst ` set d'"
      proof
        assume "nm \<in> fst ` set d'"
        from clean_files_keeps_is_file(2) [OF run this]
        show False by (auto simp: os_remove_def)
      qed
      with Cons.IH [OF Cons.prems(1) dots run] show ?thesis by simp
    qed
  qed
qed

lemma analysis_epochs_filter:
  assumes "\<And>x. x \<in> D \<Longrightarrow> take 8 x \<noteq> ''analyze.''"
  shows "analysis_epochs (filter (\<lambda>e. fst e \<notin> D) d) = analysis_epochs d"
proof (induction d)
  case Nil
  show ?case by simp
next
  case (Cons e d)
  obtain nm k where e: "e = (nm, k)" by (cases e)
  show ?case
  proof (cases "nm \<in> D")
    case True
    with assms have "take 8 nm \<noteq> ''analyze.''" by blast
    with True e Cons show ?thesis by simp
  next
    case False
    with e Cons show ?thesis by (simp cong: sum.case_cong if_cong)
  qed
qed

lemma targets_filter:
  "targets (filter (\<lambda>e. fst e \<notin> D) d) = filter (\<lambda>x. x \<notin> D) (targets d)"
proof -
  have "glob_label (filter (\<lambda>e. fst e \<notin> D) d) l = filter (\<lambda>x. x \<notin> D) (glob_label d l)" for l
    unfolding glob_label_def by (induction d) auto
  then have "glob_label (filter (\<lambda>e. fst e \<notin> D) d) = (\<lambda>l. filter (\<lambda>x. x \<notin> D) (glob_label d l))"
    by (rule ext)
  then show ?thesis by (simp add: targets_def filter_concat comp_def)
qed

lemma targets_has_dot: "\<forall>x\<in>set (targets d). CHR ''.'' \<in> set x"
  by (auto simp: set_targets dest: lbl_has_dot)

lemma clean_dir_again:
  assumes "\<not> dry_run a"
  shows "clean_dir (Namespace a) (fst (clean_dir (Namespace a) d))
           = (fst (clean_dir (Namespace a) d),
              case snd (clean_dir (Namespace a) d) of Inl e \<Rightarrow> Inl e | Inr _ \<Rightarrow> Inr 0)"
proof (cases "analysis_epochs d")
  case (Inl e)
  then show ?thesis by (simp add: clean_dir_flat)
next
  case (Inr an)
  obtain d' r where run: "clean_files (Namespace a) an (targets d) (d, 0) = (d', r)"
    by (cases "clean_files (Namespace a) an (targets d) (d, 0)")
  from clean_files_shrinks [of "targets d" "Namespace a" an "(d, 0)"] run
  obtain D where D: "D \<subseteq> set (targets d)" "d' = filter (\<lambda>e. fst e \<notin> D) d" by auto
  have first: "clean_dir (Namespace a) d = (d', r)"
    using Inr run by (simp add: clean_dir_flat split: sum.splits)
  have "\<And>x. x \<in> D \<Longrightarrow> take 8 x \<noteq> ''analyze.''"
    using D(1) by (auto simp: set_targets dest: lbl_not_analyze)
  then have an': "analysis_epochs d' = Inr an"
    unfolding D(2) using Inr by (simp add: analysis_epochs_filter)
  have "targets d' = filter (\<lambda>x. x \<notin> D) (targets d)"
    unfolding D(2) by (rule targets_filter)
  also have "\<dots> = filter (\<lambda>x. x \<in> fst ` set d') (targets d)"
    unfolding D(2) by (rule filter_cong) (auto simp: set_targets)
  finally have t: "targets d' = filter (\<lambda>x. x \<in> fst ` set d') (targets d)" .
  from clean_files_again [OF assms targets_has_dot run, of 0]
  have "clean_files (Namespace a) an (targets d') (d', 0)
          = (d', case r of Inl e \<Rightarrow> Inl e | Inr _ \<Rightarrow> Inr 0)"
    by (simp add: t)
  with an' have "clean_dir (Namespace a) d' = (d', case r of Inl e \<Rightarrow> Inl e | Inr _ \<Rightarrow> Inr 0)"
    by (simp add: clean_dir_flat split: sum.splits)
  with first show ?thesis by simp
qed

text \<open>
  C5: a second run of \<open>clean_dir\<close> (not a dry run) with the same arguments on the
  directory the first run left removes nothing: the directory stays as the first run
  left it, and the second run reports the count 0, or ends with the exception that
  ended the first run.
\<close>

theorem clean_dir_idempotent:
  "fst (clean_dir (Namespace (a\<lparr>dry_run := False\<rparr>))
          (fst (clean_dir (Namespace (a\<lparr>dry_run := False\<rparr>)) d)))
     = fst (clean_dir (Namespace (a\<lparr>dry_run := False\<rparr>)) d)
   \<and> snd (clean_dir (Namespace (a\<lparr>dry_run := False\<rparr>))
          (fst (clean_dir (Namespace (a\<lparr>dry_run := False\<rparr>)) d)))
     = (case snd (clean_dir (Namespace (a\<lparr>dry_run := False\<rparr>)) d) of
          Inl e \<Rightarrow> Inl e | Inr n \<Rightarrow> Inr 0)"
  using clean_dir_again [of "a\<lparr>dry_run := False\<rparr>" d] by simp

subsection \<open>The retention rule\<close>

lemma isnumeric_decimal: "s \<noteq> [] \<Longrightarrow> list_all decimal_char s \<Longrightarrow> isnumeric s"
  by (auto simp: isnumeric_def numeric_char_def list_all_iff)

lemma analysis_epochs_set:
  "analysis_epochs d = Inr an \<Longrightarrow> e \<in> set an \<longleftrightarrow> analyzed d e"
proof (induction d arbitrary: an)
  case Nil
  then show ?case by (auto simp: analyzed_def)
next
  case (Cons x d)
  obtain nm k where x: "x = (nm, k)" by (cases x)
  have tail: "analyzed (x # d) e \<longleftrightarrow>
      (k = Dir \<and> take 8 nm = ''analyze.'' \<and> epoch_of nm = Some e) \<or> analyzed d e"
    by (simp add: analyzed_def x)
  show ?case
  proof (cases "k = Dir \<and> take 8 nm = ''analyze.''")
    case False
    with Cons x tail show ?thesis by auto
  next
    case True
    show ?thesis
    proof (cases "item1 (split_dot nm)")
      case (Inl err)
      with Cons.prems True x show ?thesis by simp
    next
      case (Inr tok)
      show ?thesis
      proof (cases "isnumeric tok")
        case False
        with Cons True x Inr tail show ?thesis by (auto simp: epoch_of_def)
      next
        case num: True
        show ?thesis
        proof (cases "py_int tok")
          case (Inl err)
          with Cons.prems True x Inr num show ?thesis by simp
        next
          case (Inr n)
          with Cons.prems True x \<open>item1 (split_dot nm) = Inr tok\<close> num
          obtain ns where ns: "analysis_epochs d = Inr ns" "an = n # ns"
            by (auto split: sum.splits)
          from Cons.IH [OF ns(1)] ns(2) tail True Inr \<open>item1 (split_dot nm) = Inr tok\<close> num
          show ?thesis by (auto simp: epoch_of_def)
        qed
      qed
    qed
  qed
qed

lemma should_remove_True_iff:
  "should_remove (Namespace a) an d nm = Inr True \<longleftrightarrow>
     is_file d nm \<and> every_n_epochs a \<noteq> 0 \<and>
     (\<exists>e. epoch_of nm = Some e \<and> e mod every_n_epochs a \<noteq> 0 \<and> e \<notin> set an)"
proof (cases "item1 (split_dot nm)")
  case (Inl err)
  then show ?thesis by (simp add: should_remove_def epoch_of_def)
next
  case (Inr tok)
  show ?thesis
  proof (cases "isnumeric tok")
    case False
    with Inr show ?thesis by (simp add: should_remove_def epoch_of_def)
  next
    case True
    show ?thesis
    proof (cases "py_int tok")
      case (Inl err)
      with Inr True show ?thesis by (simp add: should_remove_def epoch_of_def)
    next
      case i: (Inr i)
      with Inr True show ?thesis by (simp add: should_remove_def epoch_of_def)
    qed
  qed
qed

lemma visit_changes:
  assumes "visit a an nm st = Inr st'" "fst st' \<noteq> fst st"
  shows "should_remove a an (fst st) nm = Inr True \<and> fst st' = os_remove nm (fst st)"
proof (cases "should_remove a an (fst st) nm")
  case (Inl e)
  with assms show ?thesis by (simp add: visit_def)
next
  case (Inr b)
  show ?thesis
  proof (cases b)
    case False
    with Inr assms show ?thesis by (simp add: visit_def)
  next
    case True
    with Inr assms show ?thesis
      by (cases "get_dry_run a") (auto simp: visit_def split: if_splits)
  qed
qed

lemma clean_files_removed:
  assumes "clean_files a an nms st = (d', r)" "x \<in> set (fst st)" "x \<notin> set d'"
  shows "fst x \<in> set nms \<and> should_remove a an (fst st) (fst x) = Inr True"
  using assms
proof (induction nms arbitrary: st)
  case Nil
  then show ?case by simp
next
  case (Cons nm nms)
  show ?case
  proof (cases "visit a an nm st")
    case (Inl e)
    with Cons.prems show ?thesis by simp
  next
    case (Inr st')
    with Cons.prems have run: "clean_files a an nms st' = (d', r)" by simp
    show ?thesis
    proof (cases "fst st' = fst st")
      case True
      with Cons.IH [OF run] Cons.prems(2,3) show ?thesis by simp
    next
      case False
      from visit_changes [OF Inr False]
      have sr: "should_remove a an (fst st) nm = Inr True"
        and rm: "fst st' = os_remove nm (fst st)" by simp_all
      show ?thesis
      proof (cases "fst x = nm")
        case True
        with sr show ?thesis by simp
      next
        case neq: False
        with Cons.prems(2) rm have "x \<in> set (fst st')" by (simp add: os_remove_def)
        from Cons.IH [OF run this Cons.prems(3)]
        have *: "fst x \<in> set nms" "should_remove a an (fst st') (fst x) = Inr True" by simp_all
        have "is_file (fst st') (fst x) = is_file (fst st) (fst x)"
          using neq by (simp add: rm is_file_os_remove)
        from should_remove_cong [OF this] * show ?thesis by simp
      qed
    qed
  qed
qed


lemma int_accepts_analysis: "int_accepts d \<Longrightarrow> \<exists>an. analysis_epochs d = Inr an"
proof (induction d)
  case Nil
  show ?case by simp
next
  case (Cons x d)
  obtain nm k where x: "x = (nm, k)" by (cases x)
  from Cons.prems have "int_accepts d" by (simp add: int_accepts_def)
  from Cons.IH [OF this] obtain ns where ns: "analysis_epochs d = Inr ns" by blast
  show ?case
  proof (cases "k = Dir \<and> take 8 nm = ''analyze.''")
    case False
    with x ns show ?thesis by auto
  next
    case True
    with Cons.prems x have ok: "token_ok nm" by (simp add: int_accepts_def)
    show ?thesis
    proof (cases "item1 (split_dot nm)")
      case (Inl err)
      from True have "CHR ''.'' \<in> set (take 8 nm)" by simp
      then have "CHR ''.'' \<in> set nm" by (rule in_set_takeD)
      from item1_dot [OF this] Inl show ?thesis by simp
    next
      case (Inr tok)
      show ?thesis
      proof (cases "isnumeric tok")
        case False
        with True x ns Inr show ?thesis by simp
      next
        case num: True
        with ok Inr have "list_all decimal_char tok" "tok \<noteq> []"
          by (auto simp: token_ok_def isnumeric_def)
        then have "py_int tok = Inr (int (foldl (\<lambda>a c. 10 * a + digit_value c) 0 tok))"
          by (simp add: py_int_def)
        with True x ns Inr num show ?thesis by simp
      qed
    qed
  qed
qed

lemma int_accepts_should_remove:
  assumes "int_accepts d" "every_n_epochs a \<noteq> 0" "x \<in> set (targets d)"
  shows "\<exists>b. should_remove (Namespace a) an d x = Inr b"
proof -
  from assms(3) have lbl: "lbl_name x" by (simp add: set_targets)
  from item1_dot [OF lbl_has_dot [OF lbl]] obtain tok where tok: "item1 (split_dot x) = Inr tok"
    by blast
  show ?thesis
  proof (cases "is_file d x \<and> isnumeric tok")
    case False
    with tok show ?thesis by (auto simp: should_remove_def)
  next
    case True
    then have "(x, File) \<in> set d" by (auto simp: is_file_def dest: map_of_SomeD)
    with assms(1) lbl have "token_ok x" by (auto simp: int_accepts_def list_all_iff)
    with tok True have "list_all decimal_char tok" "tok \<noteq> []"
      by (auto simp: token_ok_def isnumeric_def)
    then have "py_int tok = Inr (int (foldl (\<lambda>a c. 10 * a + digit_value c) 0 tok))"
      by (simp add: py_int_def)
    with tok True assms(2) show ?thesis by (auto simp: should_remove_def)
  qed
qed

lemma should_remove_gone:
  "should_remove a an d x = Inr b \<Longrightarrow> \<not> is_file d' x \<Longrightarrow> should_remove a an d' x = Inr False"
  by (cases "item1 (split_dot x)") (simp_all add: should_remove_def)

lemma clean_files_no_error:
  assumes "\<not> dry_run a" "\<forall>x\<in>set nms. \<exists>b. should_remove (Namespace a) an (fst st) x = Inr b"
  shows "(\<exists>c. snd (clean_files (Namespace a) an nms st) = Inr c)
       \<and> (\<forall>x\<in>set nms. should_remove (Namespace a) an (fst st) x = Inr True \<longrightarrow>
             x \<notin> fst ` set (fst (clean_files (Namespace a) an nms st)))"
  using assms
proof (induction nms arbitrary: st)
  case Nil
  show ?case by simp
next
  case (Cons nm nms)
  from Cons.prems obtain b where b: "should_remove (Namespace a) an (fst st) nm = Inr b"
    by auto
  show ?case
  proof (cases b)
    case False
    from Cons.prems have "\<forall>x\<in>set nms. \<exists>b. should_remove (Namespace a) an (fst st) x = Inr b"
      by simp
    from Cons.IH [OF Cons.prems(1) this] b False show ?thesis
      by (simp add: visit_Namespace)
  next
    case True
    let ?st = "(os_remove nm (fst st), snd st + 1)"
    have step: "clean_files (Namespace a) an (nm # nms) st = clean_files (Namespace a) an nms ?st"
      using b True Cons.prems(1) by (simp add: visit_Namespace)
    have sr: "should_remove (Namespace a) an (fst ?st) x =
        (if x = nm then Inr False else should_remove (Namespace a) an (fst st) x)"
      if "x \<in> set nms" for x
    proof (cases "x = nm")
      case True
      have "\<not> is_file (os_remove nm (fst st)) nm" by (simp add: is_file_os_remove)
      from should_remove_gone [OF b this] True show ?thesis by simp
    next
      case False
      then have "is_file (os_remove nm (fst st)) x = is_file (fst st) x"
        by (simp add: is_file_os_remove)
      from should_remove_cong [OF this] False show ?thesis by simp
    qed
    with Cons.prems(2)
    have "\<forall>x\<in>set nms. \<exists>b. should_remove (Namespace a) an (fst ?st) x = Inr b" by auto
    from Cons.IH [OF Cons.prems(1) this]
    have ok: "\<exists>c. snd (clean_files (Namespace a) an nms ?st) = Inr c"
      and gone: "\<And>x. x \<in> set nms \<Longrightarrow> should_remove (Namespace a) an (fst ?st) x = Inr True \<Longrightarrow>
             x \<notin> fst ` set (fst (clean_files (Namespace a) an nms ?st))"
      by blast+
    obtain d' r where run: "clean_files (Namespace a) an nms ?st = (d', r)"
      by (cases "clean_files (Namespace a) an nms ?st")
    have nm_gone: "nm \<notin> fst ` set d'"
    proof
      assume "nm \<in> fst ` set d'"
      from clean_files_keeps_is_file(2) [OF run this] show False by (auto simp: os_remove_def)
    qed
    have "x \<notin> fst ` set d'"
      if "x \<in> set (nm # nms)" "should_remove (Namespace a) an (fst st) x = Inr True" for x
    proof (cases "x = nm")
      case True
      with nm_gone show ?thesis by simp
    next
      case False
      with that have "x \<in> set nms" by simp
      from gone [OF this] sr [OF this] False that(2) run show ?thesis by simp
    qed
    with ok step run show ?thesis by simp
  qed
qed


lemma clean_dir_Inr_fst:
  assumes "analysis_epochs d = Inr an"
  shows "fst (clean_dir a d) = fst (clean_files a an (targets d) (d, 0))"
  using assms by (simp add: clean_dir_flat split: sum.splits prod.splits)

lemma map_of_distinct_entry: "distinct (map fst d) \<Longrightarrow> (nm, k) \<in> set d \<Longrightarrow> map_of d nm = Some k"
  by (rule map_of_is_SomeI)

text \<open>
  C1, amended. Names in a directory are distinct. An entry that \<open>clean_dir\<close> (not a dry
  run) removes is always deletable under the retention rule, so files whose epoch is a
  multiple of N, files whose epoch is an analysis epoch, files whose second token is not
  a number, and everything that is not a file matched by one of the four globs are
  never removed; nothing is added. If moreover N is not zero and every numeric token
  is a decimal digit string, \<open>clean_dir\<close> returns normally and removes every deletable
  entry.
\<close>

theorem clean_dir_retention:
  assumes "distinct (map fst d)"
  shows "set (fst (clean_dir (Namespace (a\<lparr>dry_run := False\<rparr>)) d)) \<subseteq> set d
       \<and> (\<forall>x\<in>set d. x \<notin> set (fst (clean_dir (Namespace (a\<lparr>dry_run := False\<rparr>)) d)) \<longrightarrow>
             deletable (every_n_epochs a) d x)
       \<and> (every_n_epochs a \<noteq> 0 \<and> int_accepts d \<longrightarrow>
             (\<exists>c. snd (clean_dir (Namespace (a\<lparr>dry_run := False\<rparr>)) d) = Inr c)
           \<and> (\<forall>x\<in>set d. deletable (every_n_epochs a) d x \<longrightarrow>
                 x \<notin> set (fst (clean_dir (Namespace (a\<lparr>dry_run := False\<rparr>)) d))))"
proof (cases "analysis_epochs d")
  case (Inl e)
  then have "clean_dir (Namespace (a\<lparr>dry_run := False\<rparr>)) d = (d, Inl e)"
    by (simp add: clean_dir_flat)
  moreover have "\<not> int_accepts d" using int_accepts_analysis [of d] Inl by auto
  ultimately show ?thesis by simp
next
  case (Inr an)
  let ?R = "a\<lparr>dry_run := False\<rparr>"
  obtain d' r where run: "clean_files (Namespace ?R) an (targets d) (d, 0) = (d', r)"
    by (cases "clean_files (Namespace ?R) an (targets d) (d, 0)")
  have fst: "fst (clean_dir (Namespace ?R) d) = d'"
    using clean_dir_Inr_fst [OF Inr, of "Namespace ?R"] run by simp
  have snd: "snd (clean_dir (Namespace ?R) d) = r"
    using Inr run by (simp add: clean_dir_flat split: sum.splits)
  from clean_files_shrinks [of "targets d" "Namespace ?R" an "(d, 0)"] run
  obtain D where D: "d' = filter (\<lambda>e. fst e \<notin> D) d" by auto
  then have sub: "set d' \<subseteq> set d" by auto
  have safe: "deletable (every_n_epochs a) d x" if "x \<in> set d" "x \<notin> set d'" for x
  proof -
    from clean_files_removed [OF run] that
    have t: "fst x \<in> set (targets d)"
      and sr: "should_remove (Namespace ?R) an d (fst x) = Inr True" by simp_all
    from sr obtain e where e: "is_file d (fst x)" "epoch_of (fst x) = Some e"
      "e mod every_n_epochs a \<noteq> 0" "e \<notin> set an"
      by (auto simp: should_remove_True_iff)
    from that(1) have "map_of d (fst x) = Some (snd x)"
      using map_of_distinct_entry [OF assms, of "fst x" "snd x"] by simp
    with e(1) have "snd x = File" by (simp add: is_file_def)
    moreover from t have "lbl_name (fst x)" by (simp add: set_targets)
    moreover from e(4) have "\<not> analyzed d e" by (simp add: analysis_epochs_set [OF Inr])
    ultimately show ?thesis using e(2,3) by (simp add: deletable_def)
  qed
  have live: "(\<exists>c. r = Inr c) \<and> (\<forall>x\<in>set d. deletable (every_n_epochs a) d x \<longrightarrow> x \<notin> set d')"
    if n: "every_n_epochs a \<noteq> 0" and acc: "int_accepts d"
  proof -
    have "\<forall>x\<in>set (targets d). \<exists>b. should_remove (Namespace ?R) an (fst (d, 0::nat)) x = Inr b"
      using int_accepts_should_remove [OF acc, of ?R _ an] n by simp
    from clean_files_no_error [of ?R "targets d" an "(d, 0)", OF _ this] run
    have ok: "\<exists>c. r = Inr c"
      and gone: "\<And>x. x \<in> set (targets d) \<Longrightarrow> should_remove (Namespace ?R) an d x = Inr True \<Longrightarrow>
          x \<notin> fst ` set d'"
      by auto
    have "x \<notin> set d'" if x: "x \<in> set d" and del: "deletable (every_n_epochs a) d x" for x
    proof -
      from del obtain e where e: "snd x = File" "lbl_name (fst x)" "epoch_of (fst x) = Some e"
        "e mod every_n_epochs a \<noteq> 0" "\<not> analyzed d e"
        by (auto simp: deletable_def split: option.splits)
      from x have "map_of d (fst x) = Some (snd x)"
        using map_of_distinct_entry [OF assms, of "fst x" "snd x"] by simp
      with e(1) have "is_file d (fst x)" by (simp add: is_file_def)
      moreover from e(5) have "e \<notin> set an" by (simp add: analysis_epochs_set [OF Inr])
      ultimately have "should_remove (Namespace ?R) an d (fst x) = Inr True"
        using e(3,4) n by (simp add: should_remove_True_iff)
      moreover from x e(2) have "fst x \<in> set (targets d)" by (auto simp: set_targets)
      ultimately have "fst x \<notin> fst ` set d'" by (rule gone [rotated])
      then show ?thesis by auto
    qed
    with ok show ?thesis by blast
  qed
  from sub safe live show ?thesis unfolding fst snd by blast
qed

lemmas clean_eval =
  clean_dir_def out_lbls_def glob_label_def visit_def should_remove_def
  item1_def isnumeric_def numeric_char_def decimal_char_def py_int_def is_file_def
  digit_value_def os_remove_def epoch_of_def analyzed_def lbl_name_def int_accepts_def
  token_ok_def deletable_def

theorem clean_dir_retention_witness:
  "distinct (map fst [(''weights.0.pkl'', File), (''weights.1.pkl'', File),
       (''weights.3.pkl'', File), (''analyze.3'', Dir)])
   \<and> (5::int) \<noteq> 0
   \<and> int_accepts [(''weights.0.pkl'', File), (''weights.1.pkl'', File),
       (''weights.3.pkl'', File), (''analyze.3'', Dir)]
   \<and> (''weights.1.pkl'', File) \<notin> set (fst (clean_dir
         (Namespace \<lparr>outglobs = [], every_n_epochs = 5, force = True, verbose = 0, dry_run = False\<rparr>)
         [(''weights.0.pkl'', File), (''weights.1.pkl'', File), (''weights.3.pkl'', File),
          (''analyze.3'', Dir)]))
   \<and> (''weights.3.pkl'', File) \<in> set (fst (clean_dir
         (Namespace \<lparr>outglobs = [], every_n_epochs = 5, force = True, verbose = 0, dry_run = False\<rparr>)
         [(''weights.0.pkl'', File), (''weights.1.pkl'', File), (''weights.3.pkl'', File),
          (''analyze.3'', Dir)]))"
proof -
  let ?d = "[(''weights.0.pkl'', File), (''weights.1.pkl'', File), (''weights.3.pkl'', File),
       (''analyze.3'', Dir)]"
  let ?a = "\<lparr>outglobs = [], every_n_epochs = 5, force = True, verbose = 0, dry_run = False\<rparr>"
  have h: "distinct (map fst ?d)" by simp
  have acc: "int_accepts ?d" by (simp add: clean_eval)
  have del1: "deletable 5 ?d (''weights.1.pkl'', File)" by (simp add: clean_eval)
  have del3: "\<not> deletable 5 ?d (''weights.3.pkl'', File)" by (simp add: clean_eval)
  from clean_dir_retention [OF h, of ?a] acc del1 del3 h show ?thesis by auto
qed

text \<open>
  C1 as stated fails in two ways. With the modulus 0 the remainder raises
  \<open>ZeroDivisionError\<close> at the first file with a numeric epoch. With a subdirectory
  \<open>analyze.\<close> followed by superscript two, \<open>isnumeric\<close> accepts the token and \<open>int\<close>
  raises \<open>ValueError\<close> before any file is visited. In both runs \<open>weights.1.pkl\<close>,
  whose epoch 1 is not a multiple of the modulus and not an analysis epoch, stays.
\<close>

theorem clean_dir_retention_counterexample:
  "clean_dir (Namespace \<lparr>outglobs = [], every_n_epochs = 0, force = True, verbose = 0,
        dry_run = False\<rparr>) [(''weights.1.pkl'', File)]
     = ([(''weights.1.pkl'', File)], Inl ZeroDivisionError)
   \<and> clean_dir (Namespace \<lparr>outglobs = [], every_n_epochs = 5, force = True, verbose = 0,
        dry_run = False\<rparr>) [(''analyze.'' @ [CHR 0xB2], Dir), (''weights.1.pkl'', File)]
     = ([(''analyze.'' @ [CHR 0xB2], Dir), (''weights.1.pkl'', File)], Inl ValueError)
   \<and> lbl_name ''weights.1.pkl'' \<and> epoch_of ''weights.1.pkl'' = Some 1
   \<and> (1::int) mod 5 \<noteq> 0
   \<and> \<not> analyzed [(''weights.1.pkl'', File)] 1
   \<and> \<not> analyzed [(''analyze.'' @ [CHR 0xB2], Dir), (''weights.1.pkl'', File)] 1"
  by (simp add: clean_eval)

section \<open>Properties of check\_open\_config\<close>

lemma config_names_eq:
  "config_names = [''config.yaml'', ''config.yml'', ''configs.yaml'', ''configs.yml'']"
  by (simp add: config_names_def)

lemma find_config_nonempty: "find_config d = Some c \<Longrightarrow> c \<noteq> []"
  by (auto simp: find_config_def config_names_eq split: if_splits)

lemma caught_by_normal:
  "caught_by NORMAL_EXCEPTIONS e \<longleftrightarrow>
     e \<in> {EOFError, BufferError, UnpicklingError, ImportError, ModuleNotFoundError,
          IndexError, AttributeError}"
  by (cases e) (simp_all add: caught_by_def NORMAL_EXCEPTIONS_def)

text \<open>
  C2, amended. When the directory has no config file, \<open>check_open_config\<close> returns
  \<open>None\<close>. When loading the selected config file raises, an exception of one of the
  enumerated kinds (subclasses included) is absorbed and \<open>None\<close> is returned; any
  other exception is raised again.
\<close>

theorem check_open_config_failures:
  "(find_config d = None \<longrightarrow> check_open_config d ld = Inr YNone)
   \<and> (\<forall>c e. find_config d = Some c \<and> ld c = Inl e \<longrightarrow>
         check_open_config d ld =
           (if e \<in> {EOFError, BufferError, UnpicklingError, ImportError, ModuleNotFoundError,
                    IndexError, AttributeError}
            then Inr YNone else Inl e))"
proof -
  have "check_open_config d ld =
           (if e \<in> {EOFError, BufferError, UnpicklingError, ImportError, ModuleNotFoundError,
                    IndexError, AttributeError}
            then Inr YNone else Inl e)"
    if "find_config d = Some c" "ld c = Inl e" for c e
    using that find_config_nonempty [OF that(1)] caught_by_normal [of e]
    by (simp add: check_open_config_def)
  then show ?thesis by (simp add: check_open_config_def)
qed

theorem check_open_config_failures_witness:
  "find_config [] = None \<and> check_open_config [] (\<lambda>c. Inl EOFError) = Inr YNone
   \<and> find_config [(''config.yml'', File)] = Some ''config.yml''
   \<and> check_open_config [(''config.yml'', File)] (\<lambda>c. Inl ModuleNotFoundError) = Inr YNone
   \<and> check_open_config [(''config.yml'', File)] (\<lambda>c. Inl OSError) = Inl OSError"
proof -
  have n: "find_config [] = None" by (simp add: find_config_def dir_files_def config_names_eq)
  have f: "find_config [(''config.yml'', File)] = Some ''config.yml''"
    by (simp add: find_config_def dir_files_def config_names_eq)
  from check_open_config_failures [of "[]" "\<lambda>c. Inl EOFError"] n
  have 1: "check_open_config [] (\<lambda>c. Inl EOFError) = Inr YNone" by simp
  from check_open_config_failures [of "[(''config.yml'', File)]" "\<lambda>c. Inl ModuleNotFoundError"] f
  have 2: "check_open_config [(''config.yml'', File)] (\<lambda>c. Inl ModuleNotFoundError) = Inr YNone"
    by simp
  from check_open_config_failures [of "[(''config.yml'', File)]" "\<lambda>c. Inl OSError"] f
  have 3: "check_open_config [(''config.yml'', File)] (\<lambda>c. Inl OSError) = Inl OSError"
    by simp
  from n f 1 2 3 show ?thesis by simp
qed

text \<open>
  C2 as stated fails: a directory without a config file is classified as \<open>None\<close>,
  which is not an empty mapping, and a config file on which \<open>yaml.safe_load\<close> raises
  a YAML syntax error makes \<open>check_open_config\<close> raise it, since that class is not
  among \<open>NORMAL_EXCEPTIONS\<close>.
\<close>

theorem check_open_config_failures_counterexample:
  "check_open_config [(''weights.pkl'', File)] (\<lambda>c. Inl YAMLError) = Inr YNone
   \<and> YNone \<noteq> YMap []
   \<and> check_open_config [(''config.yaml'', File)] (\<lambda>c. Inl YAMLError) = Inl YAMLError"
  by (simp add: check_open_config_def find_config_def dir_files_def config_names_eq
      caught_by_def NORMAL_EXCEPTIONS_def)

text \<open>
  C7: the candidates are, in this order, \<open>config.yaml\<close>, \<open>config.yml\<close>,
  \<open>configs.yaml\<close>, \<open>configs.yml\<close>; the first of them that is a file of the directory
  is selected, and the result of \<open>check_open_config\<close> depends on no other file's
  content.
\<close>

theorem check_open_config_priority:
  assumes "i < length config_names" "config_names ! i \<in> set (dir_files d)"
    "\<forall>j<i. config_names ! j \<notin> set (dir_files d)"
  shows "config_names = [''config.yaml'', ''config.yml'', ''configs.yaml'', ''configs.yml'']
       \<and> find_config d = Some (config_names ! i)
       \<and> (\<forall>ld'. ld' (config_names ! i) = ld (config_names ! i) \<longrightarrow>
             check_open_config d ld' = check_open_config d ld)"
proof -
  have "find_config d = Some (config_names ! i)"
    unfolding find_config_def find_Some_iff using assms by blast
  then show ?thesis by (simp add: config_names_eq [symmetric] check_open_config_def)
qed

theorem check_open_config_priority_witness:
  "(1::nat) < length config_names
   \<and> config_names ! 1 \<in> set (dir_files [(''configs.yaml'', File), (''config.yml'', File), (''config.yaml'', Dir)])
   \<and> config_names ! 0 \<notin> set (dir_files [(''configs.yaml'', File), (''config.yml'', File), (''config.yaml'', Dir)])
   \<and> find_config [(''configs.yaml'', File), (''config.yml'', File), (''config.yaml'', Dir)]
       = Some ''config.yml''"
proof -
  let ?d = "[(''configs.yaml'', File), (''config.yml'', File), (''config.yaml'', Dir)]"
  have 1: "(1::nat) < length config_names" by (simp add: config_names_eq)
  have 2: "config_names ! 1 \<in> set (dir_files ?d)" by (simp add: config_names_eq dir_files_def)
  have 3: "\<forall>j<1. config_names ! j \<notin> set (dir_files ?d)"
    by (simp add: config_names_eq dir_files_def)
  from check_open_config_priority [OF 1 2 3] have "find_config ?d = Some (config_names ! 1)"
    by simp
  moreover from 3 have "config_names ! 0 \<notin> set (dir_files ?d)" by simp
  ultimately show ?thesis using 1 2 by (simp add: config_names_eq)
qed


section \<open>Properties of main\<close>

text \<open>
  C10: when patterns are given and none of the paths they match is a directory,
  \<open>main\<close> raises \<open>ValueError\<close> (the maximum of an empty list) before the loop, and
  nothing has happened.
\<close>

theorem main_no_directories:
  assumes "outglobs a \<noteq> []" "\<forall>g\<in>set (outglobs a). \<forall>p\<in>set (glob ev g). \<not> is_dir ev p"
  shows "main a ev s = (s, Inl ValueError)"
proof -
  from assms(2) have "filter (is_dir ev) (concat (map (glob ev) (outglobs a))) = []"
    by (auto simp: filter_empty_conv)
  then have "expand a ev = []" by (simp add: expand_def)
  with assms(1) show ?thesis by (simp add: main_def)
qed

theorem main_no_directories_witness:
  "outglobs \<lparr>outglobs = [''nothing*''], every_n_epochs = 5, force = False, verbose = 0,
       dry_run = False\<rparr> \<noteq> []
   \<and> filter (is_dir \<lparr>glob = (\<lambda>g. [[''notes.txt'']]), is_dir = (\<lambda>p. False),
                 load = (\<lambda>p c. Inl OSError)\<rparr>)
        (concat (map (glob \<lparr>glob = (\<lambda>g. [[''notes.txt'']]), is_dir = (\<lambda>p. False),
                 load = (\<lambda>p c. Inl OSError)\<rparr>) [''nothing*''])) = []
   \<and> main \<lparr>outglobs = [''nothing*''], every_n_epochs = 5, force = False, verbose = 0,
        dry_run = False\<rparr>
        \<lparr>glob = (\<lambda>g. [[''notes.txt'']]), is_dir = (\<lambda>p. False), load = (\<lambda>p c. Inl OSError)\<rparr>
        \<lparr>fs = (\<lambda>p. []), stdin = [], log = []\<rparr>
      = (\<lparr>fs = (\<lambda>p. []), stdin = [], log = []\<rparr>, Inl ValueError)"
proof -
  let ?a = "\<lparr>outglobs = [''nothing*''], every_n_epochs = 5, force = False, verbose = 0,
       dry_run = False\<rparr>"
  let ?ev = "\<lparr>glob = (\<lambda>g. [[''notes.txt'']]), is_dir = (\<lambda>p. False),
       load = (\<lambda>p c. Inl OSError)\<rparr>"
  have 1: "outglobs ?a \<noteq> []" by simp
  have 2: "\<forall>g\<in>set (outglobs ?a). \<forall>p\<in>set (glob ?ev g). \<not> is_dir ?ev p" by simp
  from main_no_directories [OF 1 2] 1 show ?thesis by simp
qed

subsection \<open>What one run records\<close>

lemma split_append:
  "xs @ ys = pre @ x # post \<Longrightarrow> x \<in> set xs \<or> (\<exists>pre'. pre = xs @ pre' \<and> ys = pre' @ x # post)"
proof (induction xs arbitrary: pre)
  case Nil
  then show ?case by simp
next
  case (Cons z zs)
  show ?case
  proof (cases pre)
    case Nil
    with Cons.prems show ?thesis by simp
  next
    case (Cons p ps)
    with Cons.prems have "zs @ ys = ps @ x # post" "p = z" by simp_all
    from Cons.IH [OF this(1)] this(2) Cons show ?thesis by auto
  qed
qed

lemma bad_shape_False: "bad_shape cfg = Inr False \<Longrightarrow> \<exists>m. cfg = YMap m \<and> m \<noteq> []"
proof (cases cfg)
  case (YMap m)
  assume "bad_shape cfg = Inr False"
  with YMap have "m \<noteq> []"
    by (cases m) (simp_all add: bad_shape_def bind_exc_def)
  with YMap show ?thesis by simp
next
  case (YList l)
  assume "bad_shape cfg = Inr False"
  with YList show ?thesis by (simp add: bad_shape_def bind_exc_def split: if_splits)
next
  case (YStr t)
  assume "bad_shape cfg = Inr False"
  with YStr show ?thesis by (simp add: bad_shape_def bind_exc_def split: if_splits)
qed (simp_all add: bad_shape_def bind_exc_def)

lemma check_open_config_cases:
  assumes "check_open_config d ld = Inr cfg"
  shows "cfg = YNone \<or> cfg = YMap [] \<or> bad_shape cfg = Inr False"
proof (cases "find_config d")
  case None
  with assms show ?thesis by (simp add: check_open_config_def)
next
  case (Some c)
  then have c: "c \<noteq> []" by (rule find_config_nonempty)
  show ?thesis
  proof (cases "ld c")
    case (Inl e)
    with Some c assms show ?thesis
      by (cases "caught_by NORMAL_EXCEPTIONS e") (simp_all add: check_open_config_def)
  next
    case (Inr v)
    show ?thesis
    proof (cases "bad_shape v")
      case (Inl e)
      with Some c Inr assms show ?thesis by (simp add: check_open_config_def)
    next
      case b: (Inr b)
      with Some c Inr assms show ?thesis by (cases b) (simp_all add: check_open_config_def)
    qed
  qed
qed

lemma check_open_config_truthy:
  assumes "check_open_config d ld = Inr cfg" "truthy cfg"
  shows "\<exists>m. cfg = YMap m \<and> m \<noteq> []"
proof -
  from check_open_config_cases [OF assms(1)]
  consider "cfg = YNone" | "cfg = YMap []" | "bad_shape cfg = Inr False" by blast
  then show ?thesis
  proof cases
    case 1
    with assms(2) show ?thesis by simp
  next
    case 2
    with assms(2) show ?thesis by simp
  next
    case 3
    then show ?thesis by (rule bad_shape_False)
  qed
qed

lemma should_remove_PyInt: "should_remove (PyInt n) an d nm \<noteq> Inr True"
  by (cases "item1 (split_dot nm)") (auto simp: should_remove_def split: sum.splits)

lemma clean_files_PyInt: "fst (clean_files (PyInt n) an nms st) = fst st"
proof (induction nms arbitrary: st)
  case Nil
  show ?case by simp
next
  case (Cons nm nms)
  show ?case
  proof (cases "visit (PyInt n) an nm st")
    case (Inl e)
    then show ?thesis by simp
  next
    case (Inr st')
    have "fst st' = fst st"
      using visit_changes [OF Inr] should_remove_PyInt [of n an "fst st" nm] by blast
    with Cons.IH [of st'] Inr show ?thesis by simp
  qed
qed

lemma clean_dir_PyInt: "fst (clean_dir (PyInt n) d) = d"
proof (cases "analysis_epochs d")
  case (Inl e)
  then show ?thesis by (simp add: clean_dir_flat)
next
  case (Inr an)
  from clean_dir_Inr_fst [OF this, of "PyInt n"] clean_files_PyInt [of n an "targets d" "(d, 0)"]
  show ?thesis by simp
qed

lemma call_clean_dir_log:
  assumes "call_clean_dir p a s = (s', r)"
  shows "\<exists>res tl. log s' = log s @ Cleaned p (fs s p) (fst (clean_dir a (fs s p))) res # tl
           \<and> (tl = [] \<or> (\<exists>line. tl = [Printed p line]))
           \<and> fs s' = (fs s)(p := fst (clean_dir a (fs s p)))"
proof -
  obtain d' res where cd: "clean_dir a (fs s p) = (d', res)" by (cases "clean_dir a (fs s p)")
  show ?thesis
  proof (cases res)
    case (Inl e)
    with assms cd show ?thesis by (auto simp: call_clean_dir_def emit_def)
  next
    case (Inr n)
    with assms cd show ?thesis
      by (cases "get_dry_run a") (auto simp: call_clean_dir_def emit_def)
  qed
qed

lemma quiet_Nil: "quiet p []"
  by (simp add: quiet_def)

lemma quiet_snoc_Printed: "quiet p es \<Longrightarrow> quiet p (es @ [Printed p line])"
  by (simp add: quiet_def)

lemma quiet_snoc_Asked: "quiet p es \<Longrightarrow> quiet p (es @ [Asked p q ans])"
  by (simp add: quiet_def)

lemma call_clean_dir_after:
  assumes "call_clean_dir p a s1 = (s', r)" "log s1 = log s @ pre1" "fs s1 = fs s"
    "quiet p pre1" "truthy cfg"
  shows "prompt_post p cfg s s'"
proof -
  from call_clean_dir_log [OF assms(1)] obtain res tl where
    l: "log s' = log s1 @ Cleaned p (fs s1 p) (fst (clean_dir a (fs s1 p))) res # tl"
    and tl: "tl = [] \<or> (\<exists>line. tl = [Printed p line])"
    and f: "fs s' = (fs s1)(p := fst (clean_dir a (fs s1 p)))" by blast
  define c where "c = Cleaned p (fs s p) (fst (clean_dir a (fs s p))) res"
  define new where "new = pre1 @ c # tl"
  have 1: "log s' = log s @ new" using l assms(2,3) by (simp add: new_def c_def)
  have "\<forall>e\<in>set tl. event_dir e = p \<and> (\<forall>q c. e \<noteq> Checked q c)" using tl by auto
  moreover have "event_dir c = p \<and> (\<forall>q c'. c \<noteq> Checked q c')" by (simp add: c_def)
  ultimately have 2: "\<forall>e\<in>set new. event_dir e = p \<and> (\<forall>q c. e \<noteq> Checked q c)"
    using assms(4) by (auto simp: new_def quiet_def)
  have 3: "\<exists>d d' res. Cleaned q d d' res \<in> set new \<and> d' \<noteq> d" if "fs s' q \<noteq> fs s q" for q
  proof -
    from that f assms(3) have q: "q = p" by (cases "q = p") simp_all
    with that f assms(3) have "fst (clean_dir a (fs s p)) \<noteq> fs s p" by simp
    moreover have "Cleaned p (fs s p) (fst (clean_dir a (fs s p))) res \<in> set new"
      by (simp add: new_def c_def)
    ultimately show ?thesis unfolding q by blast
  qed
  from 1 2 3 assms(5) have "log s' = log s @ new
       \<and> (\<forall>e\<in>set new. event_dir e = p \<and> (\<forall>q c. e \<noteq> Checked q c))
       \<and> ((\<exists>q d d' res. Cleaned q d d' res \<in> set new) \<longrightarrow> truthy cfg)
       \<and> (\<forall>q. fs s' q \<noteq> fs s q \<longrightarrow> (\<exists>d d' res. Cleaned q d d' res \<in> set new \<and> d' \<noteq> d))"
    by simp
  then show ?thesis unfolding prompt_post_def by (rule exI)
qed

lemma no_clean_after:
  assumes "log s' = log s @ pre1" "fs s' = fs s" "quiet p pre1"
  shows "prompt_post p cfg s s'"
proof -
  from assms(3) have "\<forall>e\<in>set pre1. event_dir e = p \<and> (\<forall>q c. e \<noteq> Checked q c)"
    and "\<not> (\<exists>q d d' res. Cleaned q d d' res \<in> set pre1)"
    unfolding quiet_def by blast+
  with assms(1,2) have "log s' = log s @ pre1
       \<and> (\<forall>e\<in>set pre1. event_dir e = p \<and> (\<forall>q c. e \<noteq> Checked q c))
       \<and> ((\<exists>q d d' res. Cleaned q d d' res \<in> set pre1) \<longrightarrow> truthy cfg)
       \<and> (\<forall>q. fs s' q \<noteq> fs s q \<longrightarrow> (\<exists>d d' res. Cleaned q d d' res \<in> set pre1 \<and> d' \<noteq> d))"
    by simp
  then show ?thesis unfolding prompt_post_def by (rule exI)
qed


lemma prompt_dir_log:
  assumes "prompt_dir p cfg m a s = (s', r)"
  shows "prompt_post p cfg s s'"
proof -
  define msg where "msg = (if \<not> truthy cfg then ''is not a cryoDRGN directory''
                 else ''is a cryoDRGN directory'')"
  define line where "line = ljust (m + 2) (''`'' @ path_str p @ ''`'') @ msg"
  define s1 where "s1 = (if (truthy cfg \<and> dry_run a) \<or> (\<not> truthy cfg \<and> verbose a > 0)
                then emit (Printed p line) s else s)"
  define q where "q = ''`'' @ path_str p @ '' '' @ msg @
                                '', enter 1) '' @ [CHR 0x22] @ ''(s)kip'' @ [CHR 0x22] @
                                '' or 2) any other key to clean:''"
  obtain pre1 where pre1: "log s1 = log s @ pre1" "fs s1 = fs s" "quiet p pre1"
  proof (cases "(truthy cfg \<and> dry_run a) \<or> (\<not> truthy cfg \<and> verbose a > 0)")
    case True
    have "s1 = emit (Printed p line) s" unfolding s1_def using True by (rule if_P)
    then have "log s1 = log s @ [] @ [Printed p line]" "fs s1 = fs s"
      by (simp_all add: emit_def)
    moreover have "quiet p ([] @ [Printed p line])"
      by (rule quiet_snoc_Printed) (rule quiet_Nil)
    ultimately show ?thesis by (rule that)
  next
    case False
    have "s1 = s" unfolding s1_def using False by (rule if_not_P)
    then have "log s1 = log s @ []" "fs s1 = fs s" by simp_all
    then show ?thesis using quiet_Nil by (rule that)
  qed
  have unfold: "prompt_dir p cfg m a s =
      (if truthy cfg then
           (if force a \<or> dry_run a then call_clean_dir p (Namespace a) s1
            else
              (case stdin s1 of
                 [] \<Rightarrow> (s1, Inl EOFError)
               | prompt # rest \<Rightarrow>
                   if prompt \<notin> {''s'', ''skip''}
                   then call_clean_dir p (Namespace a) (emit (Asked p q prompt) (s1\<lparr>stdin := rest\<rparr>))
                   else (emit (Asked p q prompt) (s1\<lparr>stdin := rest\<rparr>), Inr ())))
         else (s1, Inr ()))"
    unfolding prompt_dir_def msg_def s1_def q_def line_def Let_def ..
  show ?thesis
  proof (cases "truthy cfg")
    case False
    with assms unfold have "s1 = s'" by simp
    from no_clean_after [OF pre1] show ?thesis unfolding \<open>s1 = s'\<close> .
  next
    case True
    show ?thesis
    proof (cases "force a \<or> dry_run a")
      case fd: True
      with True assms unfold have "call_clean_dir p (Namespace a) s1 = (s', r)" by simp
      from call_clean_dir_after [OF this pre1 True] show ?thesis .
    next
      case fd: False
      show ?thesis
      proof (cases "stdin s1")
        case Nil
        with True fd assms unfold have "s1 = s'" by simp
        from no_clean_after [OF pre1] show ?thesis unfolding \<open>s1 = s'\<close> .
      next
        case (Cons prompt rest)
        define s2 where "s2 = emit (Asked p q prompt) (s1\<lparr>stdin := rest\<rparr>)"
        have s2: "log s2 = log s @ (pre1 @ [Asked p q prompt])" "fs s2 = fs s"
          using pre1(1,2) by (simp_all add: s2_def emit_def)
        have ev2: "quiet p (pre1 @ [Asked p q prompt])"
          using pre1(3) by (rule quiet_snoc_Asked)
        have step: "prompt_dir p cfg m a s =
            (if prompt \<notin> {''s'', ''skip''} then call_clean_dir p (Namespace a) s2
             else (s2, Inr ()))"
          unfolding unfold s2_def using True fd Cons by simp
        show ?thesis
        proof (cases "prompt \<notin> {''s'', ''skip''}")
          case go: True
          have "call_clean_dir p (Namespace a) s2 = (s', r)"
            using assms go unfolding step by (simp only: if_True if_False not_False_eq_True not_True_eq_False)
          from call_clean_dir_after [OF this s2 ev2 True] show ?thesis .
        next
          case go: False
          have "(s2, Inr ()) = (s', r)"
            using assms go unfolding step by (simp only: if_True if_False not_False_eq_True not_True_eq_False)
          then have "s2 = s'" by simp
          from no_clean_after [OF s2 ev2] show ?thesis unfolding \<open>s2 = s'\<close> .
        qed
      qed
    qed
  qed
qed

lemma strict_prefix_less: "strict_prefix p q \<Longrightarrow> p < (q :: 'a::linorder list)"
proof -
  assume "strict_prefix p q"
  then obtain z zs where "q = p @ z # zs" by (rule strict_prefixE')
  then show ?thesis by (simp add: list_less_def lexord_append_rightI)
qed

lemma justified_Nil: "justified []"
  by (simp add: justified_def)

lemma skipping_Nil: "skipping []"
  by (simp add: skipping_def)

lemma explained_refl: "explained s s []"
  by (simp add: explained_def)

lemma justified_step:
  assumes pn: "\<forall>e\<in>set pnew. event_dir e = cur \<and> (\<forall>q c. e \<noteq> Checked q c)"
    and cl: "(\<exists>q d d' res. Cleaned q d d' res \<in> set pnew) \<longrightarrow> (\<exists>m. cfg = YMap m \<and> m \<noteq> [])"
    and j: "justified new'"
  shows "justified (Checked cur cfg # pnew @ new')"
  unfolding justified_def
proof (intro allI impI)
  fix pre q d d' res post
  assume a: "Checked cur cfg # pnew @ new' = pre @ Cleaned q d d' res # post \<and> d' \<noteq> d"
  then obtain pre1 where pre: "pre = Checked cur cfg # pre1"
    and rest: "pnew @ new' = pre1 @ Cleaned q d d' res # post"
    by (cases pre) auto
  from split_append [OF rest]
  show "\<exists>m. m \<noteq> [] \<and> Checked q (YMap m) \<in> set pre"
  proof
    assume in_p: "Cleaned q d d' res \<in> set pnew"
    with pn have "event_dir (Cleaned q d d' res) = cur" by blast
    then have "q = cur" by simp
    moreover from in_p cl obtain m where "cfg = YMap m" "m \<noteq> []" by blast
    ultimately have "m \<noteq> [] \<and> Checked q (YMap m) \<in> set pre" by (simp add: pre)
    then show ?thesis by (rule exI)
  next
    assume "\<exists>pre'. pre1 = pnew @ pre' \<and> new' = pre' @ Cleaned q d d' res # post"
    then obtain pre' where p': "pre1 = pnew @ pre'" "new' = pre' @ Cleaned q d d' res # post"
      by blast
    with j a obtain m where "m \<noteq> []" "Checked q (YMap m) \<in> set pre'"
      unfolding justified_def by blast
    then have "m \<noteq> [] \<and> Checked q (YMap m) \<in> set pre" by (simp add: pre p')
    then show ?thesis by (rule exI)
  qed
qed

lemma skipping_step:
  assumes pn: "\<forall>e\<in>set pnew. event_dir e = cur \<and> (\<forall>q c. e \<noteq> Checked q c)"
    and dirs: "\<forall>e\<in>set new'. event_dir e \<in> set q'"
    and later: "\<forall>p\<in>set q'. cur < p"
    and skip: "truthy cfg \<longrightarrow> (\<forall>p\<in>set q'. \<not> strict_prefix cur p)"
    and sk: "skipping new'"
  shows "skipping (Checked cur cfg # pnew @ new')"
  unfolding skipping_def
proof (intro allI impI ballI)
  fix pre p c post e
  assume a: "Checked cur cfg # pnew @ new' = pre @ Checked p c # post \<and> truthy c"
    and e: "e \<in> set (pre @ post)"
  show "\<not> strict_prefix p (event_dir e)"
  proof (cases pre)
    case Nil
    with a have eq: "p = cur" "c = cfg" "post = pnew @ new'" by simp_all
    from e Nil eq have "e \<in> set pnew \<or> e \<in> set new'" by simp
    then show ?thesis
    proof
      assume "e \<in> set pnew"
      with pn have "event_dir e = cur" by blast
      then show ?thesis by (simp add: eq)
    next
      assume "e \<in> set new'"
      with dirs have "event_dir e \<in> set q'" by blast
      with skip a eq show ?thesis by blast
    qed
  next
    case (Cons x pre1)
    with a have x: "x = Checked cur cfg" and rest: "pnew @ new' = pre1 @ Checked p c # post"
      by simp_all
    from pn have "Checked p c \<notin> set pnew" by blast
    with split_append [OF rest] obtain pre' where
      p': "pre1 = pnew @ pre'" "new' = pre' @ Checked p c # post" by blast
    from p'(2) dirs have "p \<in> set q'" by auto
    with later have lt: "cur < p" by blast
    from e Cons p'(1) have "e = x \<or> e \<in> set pnew \<or> e \<in> set (pre' @ post)" by auto
    then consider "event_dir e = cur" | "e \<in> set (pre' @ post)" using x pn by auto
    then show ?thesis
    proof cases
      case 1
      show ?thesis
      proof
        assume "strict_prefix p (event_dir e)"
        then have "p < cur" unfolding 1 by (rule strict_prefix_less)
        with lt show False by simp
      qed
    next
      case 2
      with sk p'(2) a show ?thesis unfolding skipping_def by blast
    qed
  qed
qed

lemma explained_step:
  assumes "fs s0 = fs s" "explained s0 s1 pnew" "explained s1 s' new'"
  shows "explained s s' (Checked cur cfg # pnew @ new')"
  unfolding explained_def
proof (intro allI impI)
  fix q
  assume "fs s' q \<noteq> fs s q"
  then have "fs s' q \<noteq> fs s1 q \<or> fs s1 q \<noteq> fs s0 q" using assms(1) by auto
  then show "\<exists>d d' res. Cleaned q d d' res \<in> set (Checked cur cfg # pnew @ new') \<and> d' \<noteq> d"
  proof
    assume "fs s' q \<noteq> fs s1 q"
    with assms(3) obtain d d' res where "Cleaned q d d' res \<in> set new'" "d' \<noteq> d"
      unfolding explained_def by blast
    then have "Cleaned q d d' res \<in> set (Checked cur cfg # pnew @ new') \<and> d' \<noteq> d" by simp
    then show ?thesis by blast
  next
    assume "fs s1 q \<noteq> fs s0 q"
    with assms(2) obtain d d' res where "Cleaned q d d' res \<in> set pnew" "d' \<noteq> d"
      unfolding explained_def by blast
    then have "Cleaned q d d' res \<in> set (Checked cur cfg # pnew @ new') \<and> d' \<noteq> d" by simp
    then show ?thesis by blast
  qed
qed

lemma loop_post_refl: "loop_post q s s"
proof -
  have "log s = log s @ [] \<and> (\<forall>e\<in>set []. event_dir e \<in> set q)
        \<and> justified [] \<and> explained s s [] \<and> skipping []"
    by (simp add: justified_Nil explained_refl skipping_Nil)
  then show ?thesis unfolding loop_post_def by (rule exI)
qed

lemma loop_post_step:
  assumes srt: "sorted (cur # rest)" "distinct (cur # rest)"
    and chk: "check_open_config (fs s cur) ld = Inr cfg"
    and pr: "prompt_post cur cfg (emit (Checked cur cfg) s) s1"
    and q': "q' = (if truthy cfg then filter (\<lambda>p. \<not> strict_prefix cur p) rest else rest)"
    and lp: "loop_post q' s1 s'"
  shows "loop_post (cur # rest) s s'"
proof -
  from pr obtain pnew where pnew: "log s1 = log (emit (Checked cur cfg) s) @ pnew"
    "\<forall>e\<in>set pnew. event_dir e = cur \<and> (\<forall>q c. e \<noteq> Checked q c)"
    "(\<exists>q d d' res. Cleaned q d d' res \<in> set pnew) \<longrightarrow> truthy cfg"
    "explained (emit (Checked cur cfg) s) s1 pnew"
    unfolding prompt_post_def explained_def by blast
  from lp obtain new' where new': "log s' = log s1 @ new'"
    "\<forall>e\<in>set new'. event_dir e \<in> set q'" "justified new'" "explained s1 s' new'"
    "skipping new'"
    unfolding loop_post_def by blast
  have sub: "set q' \<subseteq> set rest" by (auto simp: q')
  from srt have later: "\<forall>p\<in>set q'. cur < p" using sub by (auto simp: less_le)
  have skip: "truthy cfg \<longrightarrow> (\<forall>p\<in>set q'. \<not> strict_prefix cur p)" by (simp add: q')
  have cl: "(\<exists>q d d' res. Cleaned q d d' res \<in> set pnew) \<longrightarrow> (\<exists>m. cfg = YMap m \<and> m \<noteq> [])"
    using pnew(3) check_open_config_truthy [OF chk] by blast
  let ?new = "Checked cur cfg # pnew @ new'"
  have 1: "log s' = log s @ ?new" using pnew(1) new'(1) by (simp add: emit_def)
  have 2: "\<forall>e\<in>set ?new. event_dir e \<in> set (cur # rest)"
    using pnew(2) new'(2) sub by auto
  have 3: "justified ?new" using pnew(2) cl new'(3) by (rule justified_step)
  have "fs (emit (Checked cur cfg) s) = fs s" by (simp add: emit_def)
  then have 4: "explained s s' ?new" using pnew(4) new'(4) by (rule explained_step)
  have 5: "skipping ?new" using pnew(2) new'(2) later skip new'(5) by (rule skipping_step)
  from 1 2 3 4 5 have "log s' = log s @ ?new \<and> (\<forall>e\<in>set ?new. event_dir e \<in> set (cur # rest))
        \<and> justified ?new \<and> explained s s' ?new \<and> skipping ?new" by blast
  then show ?thesis unfolding loop_post_def by (rule exI)
qed

lemma scan_loop_log:
  assumes "sorted q" "distinct q" "scan_loop a ev m q s = (s', r)"
  shows "loop_post q s s'"
  using assms
proof (induction "length q" arbitrary: q s rule: less_induct)
  case less
  show ?case
  proof (cases q)
    case Nil
    with less.prems have "s' = s" by simp
    then show ?thesis by (simp add: loop_post_refl)
  next
    case (Cons cur rest)
    show ?thesis
    proof (cases "check_open_config (fs s cur) (load ev cur)")
      case (Inl e)
      with Cons less.prems have "s' = s" by simp
      then show ?thesis by (simp add: loop_post_refl)
    next
      case (Inr cfg)
      obtain s1 r1 where pd: "prompt_dir cur cfg m a (emit (Checked cur cfg) s) = (s1, r1)"
        by (cases "prompt_dir cur cfg m a (emit (Checked cur cfg) s)")
      from prompt_dir_log [OF pd] have pp: "prompt_post cur cfg (emit (Checked cur cfg) s) s1" .
      define q' where "q' = (if truthy cfg then filter (\<lambda>p. \<not> strict_prefix cur p) rest else rest)"
      have srt: "sorted (cur # rest)" "distinct (cur # rest)" using less.prems Cons by simp_all
      have lp: "loop_post q' s1 s'"
      proof (cases r1)
        case (Inl e)
        with Cons Inr pd less.prems have "s' = s1" by simp
        then show ?thesis by (simp add: loop_post_refl)
      next
        case r: (Inr u)
        with Cons Inr pd less.prems have run: "scan_loop a ev m q' s1 = (s', r)"
          by (simp add: q'_def)
        have len: "length q' < length q" by (simp add: q'_def Cons less_Suc_eq_le)
        have "sorted q'" "distinct q'" using srt by (simp_all add: q'_def sorted_wrt_filter)
        from less.hyps [OF len this run] show ?thesis .
      qed
      from loop_post_step [OF srt Inr pp q'_def lp] show ?thesis unfolding Cons .
    qed
  qed
qed

lemma sorted_expand: "sorted (expand a ev)" "distinct (expand a ev)"
  by (simp_all add: expand_def)

lemma main_log:
  assumes "main a ev s = (s', r)"
  shows "\<exists>new. log s' = log s @ new \<and> justified new \<and> explained s s' new \<and> skipping new"
proof (cases "outglobs a = []")
  case True
  with assms have cc: "call_clean_dir [] (PyInt (every_n_epochs a)) s = (s', r)"
    by (simp add: main_def)
  from call_clean_dir_log [OF cc] obtain res tl where
    l: "log s' = log s @ Cleaned [] (fs s []) (fs s []) res # tl"
    and tl: "tl = [] \<or> (\<exists>line. tl = [Printed [] line])"
    and f: "fs s' = (fs s)([] := fs s [])"
    by (auto simp: clean_dir_PyInt)
  let ?new = "Cleaned [] (fs s []) (fs s []) res # tl"
  have j: "justified ?new"
    unfolding justified_def
  proof (intro allI impI)
    fix pre q d d' res' post
    assume a: "?new = pre @ Cleaned q d d' res' # post \<and> d' \<noteq> d"
    show "\<exists>m. m \<noteq> [] \<and> Checked q (YMap m) \<in> set pre"
    proof (cases pre)
      case Nil
      with a show ?thesis by auto
    next
      case (Cons x xs)
      with a have "tl = xs @ Cleaned q d d' res' # post" by simp
      then have "Cleaned q d d' res' \<in> set tl" by simp
      with tl show ?thesis by auto
    qed
  qed
  from f have "fs s' = fs s" by auto
  then have e: "explained s s' ?new" by (simp add: explained_def)
  have k: "skipping ?new"
    unfolding skipping_def
  proof (intro allI impI)
    fix pre p c post
    assume a: "?new = pre @ Checked p c # post \<and> truthy c"
    then have "Checked p c \<in> set ?new" by (metis in_set_conv_decomp)
    with tl show "\<forall>e\<in>set (pre @ post). \<not> strict_prefix p (event_dir e)" by auto
  qed
  from l j e k have "log s' = log s @ ?new \<and> justified ?new \<and> explained s s' ?new \<and> skipping ?new"
    by simp
  then show ?thesis by (rule exI)
next
  case False
  show ?thesis
  proof (cases "expand a ev = []")
    case True
    with False assms have "s' = s" by (simp add: main_def)
    then have "log s' = log s @ [] \<and> justified [] \<and> explained s s' [] \<and> skipping []"
      by (simp add: justified_Nil explained_refl skipping_Nil)
    then show ?thesis by (rule exI)
  next
    case ne: False
    with False assms obtain m where "scan_loop a ev m (expand a ev) s = (s', r)"
      by (simp add: main_def Let_def)
    from scan_loop_log [OF sorted_expand this] show ?thesis unfolding loop_post_def by blast
  qed
qed

subsection \<open>Deletion needs recognition; descendants are skipped\<close>

text \<open>
  C3: on every path of \<open>main\<close>, a directory whose entries differ after the run was
  cleaned by a call of \<open>clean_dir\<close> that changed it, and every such call comes after
  \<open>check_open_config\<close> returned a non-empty mapping for that directory. Without
  patterns \<open>clean_dir\<close> is called on the working directory unclassified, but it is
  given an integer for its arguments and raises before it removes anything.
\<close>

theorem main_deletes_only_recognized:
  "\<exists>new. log (fst (main a ev s)) = log s @ new
     \<and> explained s (fst (main a ev s)) new \<and> justified new"
proof -
  have "main a ev s = (fst (main a ev s), snd (main a ev s))" by simp
  from main_log [OF this] show ?thesis by blast
qed

theorem main_deletes_only_recognized_witness:
  "fs (fst (main ex_args ex_env ex_state)) [''out''] \<noteq> fs ex_state [''out'']
   \<and> (\<exists>m. m \<noteq> [] \<and> Checked [''out''] (YMap m) \<in> set (log (fst (main ex_args ex_env ex_state))))"
proof -
  have ch: "fs (fst (main ex_args ex_env ex_state)) [''out''] \<noteq> fs ex_state [''out'']"
    by code_simp
  from main_deletes_only_recognized [of ex_args ex_env ex_state] obtain new where
    l: "log (fst (main ex_args ex_env ex_state)) = log ex_state @ new"
    and e: "explained ex_state (fst (main ex_args ex_env ex_state)) new"
    and j: "justified new" by blast
  from e ch obtain d d' res where c: "Cleaned [''out''] d d' res \<in> set new" "d' \<noteq> d"
    unfolding explained_def by blast
  from c(1) obtain pre post where "new = pre @ Cleaned [''out''] d d' res # post"
    by (auto dest: split_list)
  with j c(2) obtain m where "m \<noteq> []" "Checked [''out''] (YMap m) \<in> set pre"
    unfolding justified_def by blast
  with l \<open>new = pre @ Cleaned [''out''] d d' res # post\<close>
  have "m \<noteq> [] \<and> Checked [''out''] (YMap m) \<in> set (log (fst (main ex_args ex_env ex_state)))"
    by simp
  then have "\<exists>m. m \<noteq> [] \<and> Checked [''out''] (YMap m) \<in> set (log (fst (main ex_args ex_env ex_state)))"
    by (rule exI)
  with ch show ?thesis by simp
qed

text \<open>
  C6: in the events of one run of \<open>main\<close>, when \<open>check_open_config\<close> has returned a
  true value for a directory, no event of the run, before or after, is about a path
  that has this directory among its parents: such a path is neither classified nor
  prompted for nor cleaned. Those still in the queue are filtered out, and none came
  earlier because the queue is sorted.
\<close>

theorem main_skips_descendants:
  "\<exists>new. log (fst (main a ev s)) = log s @ new \<and> skipping new"
proof -
  have "main a ev s = (fst (main a ev s), snd (main a ev s))" by simp
  from main_log [OF this] show ?thesis by blast
qed

theorem main_skips_descendants_witness:
  "expand ex_args ex_env = [[''out''], [''out'', ''analyze.3'']]
   \<and> truthy ex_cfg
   \<and> hd (log (fst (main ex_args ex_env ex_state))) = Checked [''out''] ex_cfg
   \<and> list_all (\<lambda>e. \<not> strict_prefix [''out''] (event_dir e))
         (log (fst (main ex_args ex_env ex_state)))"
proof -
  define L where "L = log (fst (main ex_args ex_env ex_state))"
  have q: "expand ex_args ex_env = [[''out''], [''out'', ''analyze.3'']]" by code_simp
  have t: "truthy ex_cfg" by (simp add: ex_cfg_def)
  have h: "hd (log (fst (main ex_args ex_env ex_state))) = Checked [''out''] ex_cfg
      \<and> log (fst (main ex_args ex_env ex_state)) \<noteq> []" by code_simp
  then have hd: "hd L = Checked [''out''] ex_cfg" and ne: "L \<noteq> []" unfolding L_def by blast+
  have e: "log ex_state = []" by (simp add: ex_state_def)
  from main_skips_descendants [of ex_args ex_env ex_state] obtain new where
    l: "L = log ex_state @ new" and k: "skipping new"
    unfolding L_def by blast
  from l have n: "new = L" unfolding e by simp
  from ne hd have "L = [] @ Checked [''out''] ex_cfg # tl L"
    by (cases L) simp_all
  with k t have "\<forall>e\<in>set ([] @ tl L). \<not> strict_prefix [''out''] (event_dir e)"
    unfolding skipping_def n by blast
  moreover have "\<not> strict_prefix [''out''] (event_dir (hd L))" unfolding hd by simp
  moreover have "set L = insert (hd L) (set (tl L))" using ne by (cases L) simp_all
  ultimately have "\<forall>e\<in>set L. \<not> strict_prefix [''out''] (event_dir e)" by simp
  then have "list_all (\<lambda>e. \<not> strict_prefix [''out''] (event_dir e)) L"
    by (simp add: list_all_iff)
  with q t hd show ?thesis unfolding L_def by blast
qed

section \<open>Properties of the test fixture\<close>

text \<open>
  C8: with a \<open>load_epoch\<close> outside the range from 0 up to, not including, the tracked
  number of epochs, \<open>train_load_epoch\<close> raises \<open>ValueError\<close> and leaves the fixture and
  the world as they were; in particular no command has been launched.
\<close>

theorem train_load_epoch_out_of_range:
  assumes "\<not> (0 \<le> load_epoch \<and> load_epoch < epochs t)"
  shows "train_load_epoch run_command load_epoch train_epochs (t, w) = ((t, w), Inl ValueError)"
  using assms by (simp add: train_load_epoch_def)

theorem train_load_epoch_out_of_range_witness:
  "\<not> (0 \<le> (2::int) \<and> 2 < epochs ex_train_dir)
   \<and> train_load_epoch ex_runner 2 5 (ex_train_dir, ex_world [''weights.pkl''])
       = ((ex_train_dir, ex_world [''weights.pkl'']), Inl ValueError)
   \<and> launched (snd (fst (train_load_epoch ex_runner 2 5 (ex_train_dir, ex_world [''weights.pkl''])))) = []"
proof -
  have h: "\<not> (0 \<le> (2::int) \<and> 2 < epochs ex_train_dir)" by (simp add: ex_train_dir_def)
  from train_load_epoch_out_of_range [OF h, of ex_runner 5 "ex_world [''weights.pkl'']"] h
  show ?thesis by (simp add: ex_world_def)
qed

lemma str_nat_nonempty: "str_nat n \<noteq> []"
  by (subst str_nat.simps) simp

lemma zero_char: "CHR ''0'' = char_of (48::nat)"
  by code_simp

lemma minus_char: "CHR ''-'' = char_of (45::nat)"
  by code_simp

lemma str_nat_zero: "str_nat n = ''0'' \<longleftrightarrow> n = 0"
proof (cases "n < 10")
  case True
  then have "str_nat n = [char_of (48 + n)]" by (subst str_nat.simps) simp
  moreover have "char_of (48 + n) = char_of (48::nat) \<longleftrightarrow> n = 0" using True by simp
  ultimately show ?thesis by (simp add: zero_char)
next
  case False
  then have "str_nat n = str_nat (n div 10) @ [char_of (48 + n mod 10)]"
    by (subst str_nat.simps) simp
  then have "length (str_nat n) \<ge> 2"
    using str_nat_nonempty [of "n div 10"] by (cases "str_nat (n div 10)") simp_all
  with False show ?thesis by auto
qed

lemma str_nat_head: "hd (str_nat n) \<noteq> CHR ''-''"
proof (induction n rule: str_nat.induct)
  case (1 n)
  show ?case
  proof (cases "n < 10")
    case True
    then have s: "str_nat n = [char_of (48 + n)]" by (subst str_nat.simps) simp
    note minus_char
    moreover have "char_of (48 + n) \<noteq> char_of (45::nat)" using True by simp
    ultimately show ?thesis by (simp add: s)
  next
    case False
    then have "str_nat n = str_nat (n div 10) @ [char_of (48 + n mod 10)]"
      by (subst str_nat.simps) simp
    with 1 [OF False] str_nat_nonempty [of "n div 10"] show ?thesis by simp
  qed
qed

lemma str_int_zero: "str_int e = ''0'' \<longleftrightarrow> e = 0"
proof (cases "e < 0")
  case True
  then show ?thesis by (simp add: str_int_def)
next
  case False
  then show ?thesis by (simp add: str_int_def str_nat_zero)
qed

lemma pkl_cancel: "s @ ''.pkl'' = ''0.pkl'' \<longleftrightarrow> s = ''0''"
proof -
  have "''0.pkl'' = ''0'' @ ''.pkl''" by simp
  then show ?thesis by (simp only: append_same_eq)
qed

lemma mrc_cancel: "s @ ''.mrc'' = ''0.mrc'' \<longleftrightarrow> s = ''0''"
proof -
  have "''0.mrc'' = ''0'' @ ''.mrc''" by simp
  then show ?thesis by (simp only: append_same_eq)
qed

lemma checked_names:
  assumes "lbl = [] \<or> (\<exists>e. e \<noteq> 0 \<and> lbl = ''.'' @ str_int e)"
  shows "''weights'' @ lbl @ ''.pkl'' \<notin> zero_names"
    and "''reconstruct'' @ lbl @ ''.mrc'' \<notin> zero_names"
    and "''z'' @ lbl @ ''.pkl'' \<notin> zero_names"
proof -
  have z: "''0'' = str_int e \<longleftrightarrow> e = 0" for e using str_int_zero [of e] by metis
  show "''weights'' @ lbl @ ''.pkl'' \<notin> zero_names"
    using assms by (auto simp: zero_names_def pkl_cancel z)
  show "''reconstruct'' @ lbl @ ''.mrc'' \<notin> zero_names"
    using assms by (auto simp: zero_names_def mrc_cancel z)
  show "''z'' @ lbl @ ''.pkl'' \<notin> zero_names"
    using assms by (auto simp: zero_names_def pkl_cancel z)
qed

lemma files_cleaned_agree:
  assumes "\<forall>nm. nm \<notin> zero_names \<longrightarrow> (nm \<in> set F \<longleftrightarrow> nm \<in> set F')"
    "lbl = [] \<or> (\<exists>e. e \<noteq> 0 \<and> lbl = ''.'' @ str_int e)"
  shows "files_cleaned t F lbl = files_cleaned t F' lbl"
proof -
  note n = checked_names [OF assms(2)]
  from assms(1) n have
    "''weights'' @ lbl @ ''.pkl'' \<in> set F \<longleftrightarrow> ''weights'' @ lbl @ ''.pkl'' \<in> set F'"
    "''reconstruct'' @ lbl @ ''.mrc'' \<in> set F \<longleftrightarrow> ''reconstruct'' @ lbl @ ''.mrc'' \<in> set F'"
    "''z'' @ lbl @ ''.pkl'' \<in> set F \<longleftrightarrow> ''z'' @ lbl @ ''.pkl'' \<in> set F'"
    by blast+
  then show ?thesis unfolding files_cleaned_def Let_def by (simp only:)
qed

lemma epoch_label:
  "(if epoch_true epoch then ''.'' @ str_int (the epoch) else []) = []
   \<or> (\<exists>e. e \<noteq> 0 \<and> (if epoch_true epoch then ''.'' @ str_int (the epoch) else []) = ''.'' @ str_int e)"
  by (cases epoch) (auto simp: epoch_true_def)

lemma epoch_cleaned_agree:
  assumes "\<forall>nm. nm \<notin> zero_names \<longrightarrow>
      (nm \<in> set (listdir w (outdir t)) \<longleftrightarrow> nm \<in> set (listdir w' (outdir t)))"
  shows "epoch_cleaned t w epoch = epoch_cleaned t w' epoch"
  unfolding epoch_cleaned_def
  using files_cleaned_agree [OF assms epoch_label, of t epoch] by simp

lemma any_cleaned_agree:
  assumes "\<forall>nm. nm \<notin> zero_names \<longrightarrow>
      (nm \<in> set (listdir w (outdir t)) \<longleftrightarrow> nm \<in> set (listdir w' (outdir t)))"
  shows "any_cleaned t w es = any_cleaned t w' es"
  by (induction es) (simp_all add: epoch_cleaned_agree [OF assms] cong: sum.case_cong if_cong)

lemma epoch_cleaned_0_None: "epoch_cleaned t w (Some 0) = epoch_cleaned t w None"
  by (simp add: epoch_cleaned_def epoch_true_def)

lemma files_cleaned_Nil:
  "files_cleaned t F [] =
     (''weights.pkl'' \<notin> set F
      \<and> (train_cmd t = ''train_nn'' \<longrightarrow> ''reconstruct.mrc'' \<notin> set F)
      \<and> (train_cmd t = ''train_vae'' \<longrightarrow> ''z.pkl'' \<notin> set F))"
  by (simp add: files_cleaned_def Let_def)

text \<open>
  C9: \<open>epoch_cleaned(0)\<close> is \<open>epoch_cleaned(None)\<close>. Whatever the number of epochs, it
  raises nothing and looks at the final files \<open>weights.pkl\<close>, \<open>reconstruct.mrc\<close>,
  \<open>z.pkl\<close>. So \<open>all_files_present\<close> gives the same answer on two worlds whose output
  directories differ only in the epoch-0 files \<open>weights.0.pkl\<close>, \<open>z.0.pkl\<close>,
  \<open>reconstruct.0.mrc\<close>.
\<close>

theorem epoch_cleaned_zero:
  "epoch_cleaned t w (Some 0) = epoch_cleaned t w None
   \<and> epoch_cleaned t w (Some 0) =
       Inr (''weights.pkl'' \<notin> set (listdir w (outdir t))
            \<and> (train_cmd t = ''train_nn'' \<longrightarrow> ''reconstruct.mrc'' \<notin> set (listdir w (outdir t)))
            \<and> (train_cmd t = ''train_vae'' \<longrightarrow> ''z.pkl'' \<notin> set (listdir w (outdir t))))
   \<and> ((\<forall>nm. nm \<notin> {''weights.0.pkl'', ''z.0.pkl'', ''reconstruct.0.mrc''} \<longrightarrow>
          (nm \<in> set (listdir w (outdir t)) \<longleftrightarrow> nm \<in> set (listdir w' (outdir t))))
        \<longrightarrow> all_files_present t w = all_files_present t w')"
proof -
  have 1: "epoch_cleaned t w (Some 0) = epoch_cleaned t w None"
    by (rule epoch_cleaned_0_None)
  have 2: "epoch_cleaned t w (Some 0) =
       Inr (''weights.pkl'' \<notin> set (listdir w (outdir t))
            \<and> (train_cmd t = ''train_nn'' \<longrightarrow> ''reconstruct.mrc'' \<notin> set (listdir w (outdir t)))
            \<and> (train_cmd t = ''train_vae'' \<longrightarrow> ''z.pkl'' \<notin> set (listdir w (outdir t))))"
    by (simp add: epoch_cleaned_def epoch_true_def files_cleaned_Nil)
  have 3: "all_files_present t w = all_files_present t w'"
    if "\<forall>nm. nm \<notin> {''weights.0.pkl'', ''z.0.pkl'', ''reconstruct.0.mrc''} \<longrightarrow>
          (nm \<in> set (listdir w (outdir t)) \<longleftrightarrow> nm \<in> set (listdir w' (outdir t)))"
    unfolding all_files_present_def
    using any_cleaned_agree [of w t w'] that unfolding zero_names_def by simp
  from 1 2 3 show ?thesis by blast
qed

theorem epoch_cleaned_zero_witness:
  "set (listdir (ex_world [''weights.pkl'', ''reconstruct.mrc'', ''weights.1.pkl'',
          ''reconstruct.1.mrc'', ''weights.0.pkl'', ''reconstruct.0.mrc'']) (outdir ex_train_dir))
     - {''weights.0.pkl'', ''z.0.pkl'', ''reconstruct.0.mrc''}
   = set (listdir (ex_world [''weights.pkl'', ''reconstruct.mrc'', ''weights.1.pkl'',
          ''reconstruct.1.mrc'']) (outdir ex_train_dir))
     - {''weights.0.pkl'', ''z.0.pkl'', ''reconstruct.0.mrc''}
   \<and> all_files_present ex_train_dir
        (ex_world [''weights.pkl'', ''reconstruct.mrc'', ''weights.1.pkl'', ''reconstruct.1.mrc''])
       = all_files_present ex_train_dir
        (ex_world [''weights.pkl'', ''reconstruct.mrc'', ''weights.1.pkl'', ''reconstruct.1.mrc'',
                   ''weights.0.pkl'', ''reconstruct.0.mrc''])
   \<and> ''weights.0.pkl'' \<notin> set (listdir (ex_world [''weights.pkl'', ''reconstruct.mrc'',
        ''weights.1.pkl'', ''reconstruct.1.mrc'']) (outdir ex_train_dir))"
proof -
  let ?w = "ex_world [''weights.pkl'', ''reconstruct.mrc'', ''weights.1.pkl'', ''reconstruct.1.mrc'']"
  let ?w' = "ex_world [''weights.pkl'', ''reconstruct.mrc'', ''weights.1.pkl'',
       ''reconstruct.1.mrc'', ''weights.0.pkl'', ''reconstruct.0.mrc'']"
  have d: "set (listdir ?w' (outdir ex_train_dir))
             - {''weights.0.pkl'', ''z.0.pkl'', ''reconstruct.0.mrc''}
         = set (listdir ?w (outdir ex_train_dir))
             - {''weights.0.pkl'', ''z.0.pkl'', ''reconstruct.0.mrc''}"
    by (auto simp: ex_world_def)
  then have h: "\<forall>nm. nm \<notin> {''weights.0.pkl'', ''z.0.pkl'', ''reconstruct.0.mrc''} \<longrightarrow>
      (nm \<in> set (listdir ?w (outdir ex_train_dir)) \<longleftrightarrow> nm \<in> set (listdir ?w' (outdir ex_train_dir)))"
    by blast
  have m: "''weights.0.pkl'' \<notin> set (listdir ?w (outdir ex_train_dir))"
    by (simp add: ex_world_def)
  from epoch_cleaned_zero [of ex_train_dir ?w ?w'] h
  have "all_files_present ex_train_dir ?w = all_files_present ex_train_dir ?w'" by blast
  with d m show ?thesis by blast
qed

end
